theory Spec2Isabelle
  imports Main
begin

section \<open>Data model of html_parser.c\<close>

text \<open>
  The token kinds and the token structure (lines 6-16). The field \<open>data\<close> is a C string;
  the model keeps its characters, without the terminating NUL. A string made by
  \<open>strdup\<close> from a buffer is the buffer's content up to its first NUL: the characters
  copied from the input, none of which is NUL, since they stand before the input's end.
\<close>

datatype TokenType = StartTag | EndTag | Text

record Token =
  type :: TokenType
  data :: string

text \<open>
  The DOM node (lines 19-25). Nodes live on the heap and are shared by pointer between the
  parent's child array and the stack of open elements, so the model keeps an explicit
  heap: the list of all nodes allocated so far, a pointer being the index of a node in
  that list. The child array \<open>children\<close> holds pointers; \<open>child_count\<close> is its length.
\<close>

record Node =
  name :: string
  children :: "nat list"
  child_capacity :: int
  is_text :: bool

text \<open>
  The source has no error signalling. What the model reports as an error is a read or a
  write outside an array of the source, which is undefined behaviour in C:
  \<^item> \<open>TextBufferOverflow\<close>: an index outside \<open>char buffer[1024]\<close> (lines 88, 122, 129);
  \<^item> \<open>TagNameOverflow\<close>: an index outside \<open>char tag_name[256]\<close> (lines 108, 110);
  \<^item> \<open>TokenArrayOverflow\<close>: a token written at or beyond \<open>*token_capacity\<close>
    (lines 93, 117, 134);
  \<^item> \<open>ChildArrayOverflow\<close>: a child written at or beyond \<open>child_capacity\<close> (line 44);
  \<^item> \<open>StackOutOfBounds\<close>: an index outside the 128 entries of \<open>stack\<close>
    (lines 150, 151, 156);
  \<^item> \<open>InvalidPointer\<close>: a node pointer that no \<open>create_node\<close> returned.
  Two of them never occur and a third one only for a caller's mistake: \<open>build_dom\<close>
  returns a tree or \<open>StackOutOfBounds\<close> (lemma \<open>build_dom_errors\<close>), and \<open>tokenize\<close>,
  called with a positive capacity, never returns \<open>TokenArrayOverflow\<close> (lemma
  \<open>tokenize_no_token_array_overflow\<close>).
  Allocation is assumed to succeed, and the \<open>int\<close> counters are unbounded in the model
  (they overflow only beyond \<open>2^30\<close> tokens or children).
\<close>

datatype error =
  TextBufferOverflow | TagNameOverflow | TokenArrayOverflow
  | ChildArrayOverflow | StackOutOfBounds | InvalidPointer

section \<open>The tokenizer (lines 76-138)\<close>

text \<open>
  The variables of \<open>tokenize\<close>: the scan position \<open>pos\<close>, the text buffer (the model
  keeps its first \<open>buffer_pos\<close> characters, so \<open>buffer_pos\<close> is the length of \<open>buffer\<close>),
  the token array (\<open>*token_count\<close> is the length of \<open>tokens\<close>) and \<open>*token_capacity\<close>.
  \<open>strlen_calls\<close> is a ghost counter: the number of calls of \<open>strlen(html)\<close> made so
  far. The input \<open>html\<close> is the C string's characters before its terminating NUL.
\<close>

record tstate =
  pos :: nat
  buffer :: string
  tokens :: "Token list"
  token_capacity :: int
  strlen_calls :: nat

text \<open>A call \<open>strlen(html)\<close>: the length, and one more call counted.\<close>

definition strlen :: "string \<Rightarrow> tstate \<Rightarrow> nat \<times> tstate" where
  "strlen html st = (length html, st\<lparr>strlen_calls := strlen_calls st + 1\<rparr>)"

text \<open>
  Appending a token (lines 89-95, 113-119 and 130-136 are the same code): the capacity
  doubles when the array is full, then the token is written at index \<open>*token_count\<close>.
\<close>

definition push_token :: "TokenType \<Rightarrow> string \<Rightarrow> tstate \<Rightarrow> error + tstate" where
  "push_token ty d st =
     (let cap = (if int (length (tokens st)) \<ge> token_capacity st
                 then token_capacity st * 2 else token_capacity st)
      in if int (length (tokens st)) < cap
         then Inr (st\<lparr>tokens := tokens st @ [\<lparr>type = ty, data = d\<rparr>],
                      token_capacity := cap\<rparr>)
         else Inl TokenArrayOverflow)"

text \<open>Lines 87-98: flush the buffered text when a tag starts.\<close>

definition flush_text :: "tstate \<Rightarrow> error + tstate" where
  "flush_text st =
     (if length (buffer st) > 0 then
        if length (buffer st) < 1024 then
          (case push_token Text (buffer st) st of
             Inl e \<Rightarrow> Inl e
           | Inr st' \<Rightarrow> Inr (st'\<lparr>buffer := []\<rparr>))
        else Inl TextBufferOverflow
      else Inr st)"

text \<open>
  Lines 107-109: the loop that copies the tag name, up to the next \<open>>\<close> or the end of
  the input. \<open>tag_pos\<close> is the length of \<open>tag_name\<close>. A loop that did not return
  would have the value \<open>None\<close>.
\<close>

partial_function (option) extract_tag_name ::
  "string \<Rightarrow> tstate \<Rightarrow> string \<Rightarrow> (error + tstate \<times> string) option" where
  "extract_tag_name html st tag_name =
     (case strlen html st of (n, st1) \<Rightarrow>
        if pos st1 < n \<and> html ! pos st1 \<noteq> CHR ''>'' then
          if length tag_name < 256 then
            extract_tag_name html (st1\<lparr>pos := pos st1 + 1\<rparr>) (tag_name @ [html ! pos st1])
          else Some (Inl TagNameOverflow)
        else Some (Inr (st1, tag_name)))"

text \<open>Lines 100-119: a tag, entered with \<open>html[pos] = '<'\<close> and the text flushed.\<close>

definition read_tag :: "string \<Rightarrow> tstate \<Rightarrow> (error + tstate) option" where
  "read_tag html st =
     (case strlen html st of (n, st1) \<Rightarrow>
        let is_end_tag = (pos st1 + 1 < n \<and> html ! (pos st1 + 1) = CHR ''/'');
            st2 = st1\<lparr>pos := pos st1 + (if is_end_tag then 2 else 1)\<rparr>
        in case extract_tag_name html st2 [] of
             None \<Rightarrow> None
           | Some (Inl e) \<Rightarrow> Some (Inl e)
           | Some (Inr (st3, tag_name)) \<Rightarrow>
               if length tag_name < 256 then
                 Some (push_token (if is_end_tag then EndTag else StartTag) tag_name
                         (st3\<lparr>pos := pos st3 + 1\<rparr>))
               else Some (Inl TagNameOverflow))"

text \<open>Lines 83-124: the body of the main loop, entered with \<open>pos < strlen(html)\<close>.\<close>

definition tokenize_body :: "string \<Rightarrow> tstate \<Rightarrow> (error + tstate) option" where
  "tokenize_body html st =
     (let c = html ! pos st in
      if c = CHR ''<'' then
        (case flush_text st of
           Inl e \<Rightarrow> Some (Inl e)
         | Inr st1 \<Rightarrow> read_tag html st1)
      else if length (buffer st) < 1024 then
        Some (Inr (st\<lparr>buffer := buffer st @ [c], pos := pos st + 1\<rparr>))
      else Some (Inl TextBufferOverflow))"

text \<open>Lines 82-125: the main loop.\<close>

partial_function (option) tokenize_loop ::
  "string \<Rightarrow> tstate \<Rightarrow> (error + tstate) option" where
  "tokenize_loop html st =
     (case strlen html st of (n, st1) \<Rightarrow>
        if pos st1 < n then
          (case tokenize_body html st1 of
             None \<Rightarrow> None
           | Some (Inl e) \<Rightarrow> Some (Inl e)
           | Some (Inr st2) \<Rightarrow> tokenize_loop html st2)
        else Some (Inr st1))"

text \<open>Lines 127-137: the text left in the buffer at the end of the input.\<close>

definition flush_remaining :: "tstate \<Rightarrow> error + tstate" where
  "flush_remaining st =
     (if length (buffer st) > 0 then
        if length (buffer st) < 1024 then push_token Text (buffer st) st
        else Inl TextBufferOverflow
      else Inr st)"

text \<open>
  The whole of \<open>tokenize\<close>, started with the caller's capacity \<open>cap\<close>: \<open>tokenize_run\<close>
  gives the final values of all variables, \<open>tokenize\<close> what the caller gets back, the
  tokens and the new capacity.
\<close>

definition tokenize_init :: "int \<Rightarrow> tstate" where
  "tokenize_init cap =
     \<lparr>pos = 0, buffer = [], tokens = [], token_capacity = cap, strlen_calls = 0\<rparr>"

definition tokenize_run :: "string \<Rightarrow> int \<Rightarrow> (error + tstate) option" where
  "tokenize_run html cap =
     (case tokenize_loop html (tokenize_init cap) of
        None \<Rightarrow> None
      | Some (Inl e) \<Rightarrow> Some (Inl e)
      | Some (Inr st) \<Rightarrow> Some (flush_remaining st))"

definition tokenize :: "string \<Rightarrow> int \<Rightarrow> (error + Token list \<times> int) option" where
  "tokenize html cap =
     (case tokenize_run html cap of
        None \<Rightarrow> None
      | Some (Inl e) \<Rightarrow> Some (Inl e)
      | Some (Inr st) \<Rightarrow> Some (Inr (tokens st, token_capacity st)))"

section \<open>The tree builder (lines 28-45 and 141-162)\<close>

text \<open>\<open>create_node\<close> (lines 28-36): a new node at a fresh address.\<close>

definition create_node :: "string \<Rightarrow> bool \<Rightarrow> Node list \<Rightarrow> nat \<times> Node list" where
  "create_node nm txt h =
     (length h, h @ [\<lparr>name = nm, children = [], child_capacity = 4, is_text = txt\<rparr>])"

text \<open>\<open>add_child\<close> (lines 39-45).\<close>

definition add_child :: "nat \<Rightarrow> nat \<Rightarrow> Node list \<Rightarrow> error + Node list" where
  "add_child parent child h =
     (if parent < length h then
        let p = h ! parent;
            cap = (if int (length (children p)) \<ge> child_capacity p
                   then child_capacity p * 2 else child_capacity p)
        in if int (length (children p)) < cap
           then Inr (h[parent := p\<lparr>children := children p @ [child], child_capacity := cap\<rparr>])
           else Inl ChildArrayOverflow
      else Inl InvalidPointer)"

text \<open>
  The variables of \<open>build_dom\<close>: the heap and the stack of open elements. The model keeps
  the first \<open>stack_size\<close> entries of \<open>stack\<close>, the top of the stack last, so
  \<open>stack_size\<close> is the length of \<open>stack\<close> and \<open>stack[stack_size - 1]\<close> its last entry.
\<close>

record bstate =
  heap :: "Node list"
  stack :: "nat list"

text \<open>\<open>stack[stack_size - 1]\<close>: index \<open>-1\<close> when the stack is empty.\<close>

definition stack_top :: "bstate \<Rightarrow> error + nat" where
  "stack_top st = (if stack st = [] then Inl StackOutOfBounds else Inr (last (stack st)))"

text \<open>\<open>stack[stack_size++] = node\<close>: the array has 128 entries.\<close>

definition stack_push :: "nat \<Rightarrow> bstate \<Rightarrow> error + bstate" where
  "stack_push node st =
     (if length (stack st) < 128 then Inr (st\<lparr>stack := stack st @ [node]\<rparr>)
      else Inl StackOutOfBounds)"

text \<open>Lines 148-157: the body of the loop over the tokens.\<close>

definition build_body :: "Token \<Rightarrow> bstate \<Rightarrow> error + bstate" where
  "build_body tok st =
     (case type tok of
        StartTag \<Rightarrow>
          (case create_node (data tok) False (heap st) of (node, h1) \<Rightarrow>
             case stack_top st of
               Inl e \<Rightarrow> Inl e
             | Inr parent \<Rightarrow>
                 (case add_child parent node h1 of
                    Inl e \<Rightarrow> Inl e
                  | Inr h2 \<Rightarrow> stack_push node (st\<lparr>heap := h2\<rparr>)))
      | EndTag \<Rightarrow>
          (if length (stack st) > 0 then Inr (st\<lparr>stack := butlast (stack st)\<rparr>) else Inr st)
      | Text \<Rightarrow>
          (case create_node (data tok) True (heap st) of (text_node, h1) \<Rightarrow>
             case stack_top st of
               Inl e \<Rightarrow> Inl e
             | Inr parent \<Rightarrow>
                 (case add_child parent text_node h1 of
                    Inl e \<Rightarrow> Inl e
                  | Inr h2 \<Rightarrow> Inr (st\<lparr>heap := h2\<rparr>))))"

text \<open>
  Lines 147-158: the loop \<open>for (i = 0; i < token_count; i++)\<close>, with \<open>token_count\<close> the
  length of \<open>tokens\<close>. It returns the final \<open>i\<close> with the state.
\<close>

partial_function (option) build_loop ::
  "Token list \<Rightarrow> nat \<Rightarrow> bstate \<Rightarrow> (error + nat \<times> bstate) option" where
  "build_loop toks i st =
     (if i < length toks then
        (case build_body (toks ! i) st of
           Inl e \<Rightarrow> Some (Inl e)
         | Inr st' \<Rightarrow> build_loop toks (i + 1) st')
      else Some (Inr (i, st)))"

text \<open>
  \<open>build_dom\<close> (lines 141-162): the root is created and pushed, the loop runs, the root
  pointer is returned; the model returns the heap with it. \<open>build_run\<close> gives the final
  values of all variables.
\<close>

definition build_init :: "nat \<times> bstate" where
  "build_init =
     (case create_node ''document'' False [] of (root, h) \<Rightarrow>
        (root, \<lparr>heap = h, stack = [root]\<rparr>))"

definition build_run :: "Token list \<Rightarrow> (error + nat \<times> bstate) option" where
  "build_run toks = build_loop toks 0 (snd build_init)"

definition build_dom :: "Token list \<Rightarrow> (error + nat \<times> Node list) option" where
  "build_dom toks =
     (case build_run toks of
        None \<Rightarrow> None
      | Some (Inl e) \<Rightarrow> Some (Inl e)
      | Some (Inr (i, st)) \<Rightarrow> Some (Inr (fst build_init, heap st)))"

section \<open>The two steps together, and the costs\<close>

text \<open>
  Steps 1 and 2 of \<open>main\<close> (lines 168-183), for any input and any initial capacity
  (\<open>main\<close> passes 16): the tokens of \<open>tokenize\<close> go to \<open>build_dom\<close>.
\<close>

definition tokenize_then_build :: "string \<Rightarrow> int \<Rightarrow> (error + nat \<times> Node list) option" where
  "tokenize_then_build html cap =
     (case tokenize html cap of
        None \<Rightarrow> None
      | Some (Inl e) \<Rightarrow> Some (Inl e)
      | Some (Inr (toks, cap')) \<Rightarrow> build_dom toks)"

text \<open>
  The characters that the calls of \<open>strlen(html)\<close> read: \<open>strlen\<close> scans the string up to
  and including its terminating NUL, so each call reads \<open>length html + 1\<close> characters.
\<close>

definition strlen_reads :: "string \<Rightarrow> tstate \<Rightarrow> nat" where
  "strlen_reads html st = strlen_calls st * (length html + 1)"

text \<open>
  The steps of \<open>build_dom\<close>, for its running time. Every call and every iteration of
  the loop counts one step. \<open>strdup\<close> copies the name and its NUL, so \<open>create_node\<close>
  counts as many steps more as the name has characters, plus one. \<open>realloc\<close> may move the
  array, so \<open>add_child\<close> counts as many steps more as the full array holds pointers
  when it reallocates.
\<close>

definition create_node_cost :: "string \<Rightarrow> nat" where
  "create_node_cost nm = 1 + (length nm + 1)"

definition add_child_cost :: "nat \<Rightarrow> Node list \<Rightarrow> nat" where
  "add_child_cost parent h =
     1 + (if int (length (children (h ! parent))) \<ge> child_capacity (h ! parent)
          then length (children (h ! parent)) else 0)"

text \<open>
  One iteration of the loop (lines 148-157), in a state where it returns: the iteration,
  \<open>create_node\<close>, \<open>add_child\<close> on the top of the stack and, for a StartTag, the push.
\<close>

definition build_body_cost :: "Token \<Rightarrow> bstate \<Rightarrow> nat" where
  "build_body_cost tok st =
     (case type tok of
        StartTag \<Rightarrow>
          (case create_node (data tok) False (heap st) of (node, h1) \<Rightarrow>
             1 + create_node_cost (data tok) + add_child_cost (last (stack st)) h1 + 1)
      | EndTag \<Rightarrow> 1
      | Text \<Rightarrow>
          (case create_node (data tok) True (heap st) of (text_node, h1) \<Rightarrow>
             1 + create_node_cost (data tok) + add_child_cost (last (stack st)) h1))"

text \<open>The steps of the loop, added up along the run of \<open>build_loop\<close>.\<close>

partial_function (option) build_loop_cost ::
  "Token list \<Rightarrow> nat \<Rightarrow> bstate \<Rightarrow> nat \<Rightarrow> nat option" where
  "build_loop_cost toks i st steps =
     (if i < length toks then
        (case build_body (toks ! i) st of
           Inl e \<Rightarrow> Some steps
         | Inr st' \<Rightarrow> build_loop_cost toks (i + 1) st' (steps + build_body_cost (toks ! i) st))
      else Some steps)"

text \<open>The steps of \<open>build_dom\<close>: the root is created and pushed, then the loop runs.\<close>

definition build_cost :: "Token list \<Rightarrow> nat option" where
  "build_cost toks =
     build_loop_cost toks 0 (snd build_init) (create_node_cost ''document'' + 1)"

text \<open>The characters that \<open>strdup\<close> copies for the tokens: no node is made for an EndTag.\<close>

definition copied_chars :: "Token list \<Rightarrow> nat" where
  "copied_chars toks =
     sum_list (map (\<lambda>t. if type t = EndTag then 0 else length (data t)) toks)"

section \<open>Predicates used in the proofs\<close>

text \<open>
  The token array is used within its capacity: the capacity is positive and at least the
  number of tokens. It holds initially for a positive capacity of the caller.
\<close>

definition cap_ok :: "tstate \<Rightarrow> bool" where
  "cap_ok s = (0 < token_capacity s \<and> int (length (tokens s)) \<le> token_capacity s)"

text \<open>Two tokenizer states that differ in the capacity only, and two such results.\<close>

definition same_but_cap :: "tstate \<Rightarrow> tstate \<Rightarrow> bool" where
  "same_but_cap s t =
     (cap_ok s \<and> cap_ok t \<and> pos t = pos s \<and> buffer t = buffer s \<and>
      tokens t = tokens s \<and> strlen_calls t = strlen_calls s)"

definition same_result :: "error + tstate \<Rightarrow> error + tstate \<Rightarrow> bool" where
  "same_result r r' =
     (case r of
        Inl e \<Rightarrow> r' = Inl e
      | Inr s \<Rightarrow> (\<exists>t. r' = Inr t \<and> same_but_cap s t))"

text \<open>
  Every entry of the stack points to an element of the heap, and every text node of the
  heap has no children.
\<close>

definition stack_valid :: "bstate \<Rightarrow> bool" where
  "stack_valid st =
     ((\<forall>a \<in> set (stack st). a < length (heap st) \<and> \<not> is_text (heap st ! a)) \<and>
      (\<forall>n \<in> set (heap st). is_text n \<longrightarrow> children n = []))"

text \<open>
  Every entry of the stack points into the heap, and every child array is used within its
  capacity.
\<close>

definition heap_valid :: "bstate \<Rightarrow> bool" where
  "heap_valid st =
     ((\<forall>a \<in> set (stack st). a < length (heap st)) \<and>
      (\<forall>n \<in> set (heap st). 0 < child_capacity n \<and> int (length (children n)) \<le> child_capacity n))"

text \<open>
  For the amortised cost of \<open>realloc\<close>: each node holds \<open>2 child_count - child_capacity + 4\<close>
  steps in reserve, which is not negative as long as no capacity exceeds twice the count
  plus four.
\<close>

definition slack :: "Node list \<Rightarrow> int" where
  "slack h = sum_list (map (\<lambda>n. 2 * int (length (children n)) - child_capacity n + 4) h)"

definition caps_tight :: "Node list \<Rightarrow> bool" where
  "caps_tight h = (\<forall>n \<in> set h. child_capacity n \<le> 2 * int (length (children n)) + 4)"

section \<open>Lemmas about the tokenizer\<close>

lemmas tokenize_defs =
  tokenize_def tokenize_run_def tokenize_init_def flush_remaining_def tokenize_body_def
  read_tag_def flush_text_def push_token_def strlen_def Let_def

subsection \<open>The tag-name loop\<close>

lemma extract_tag_name_eq:
  "extract_tag_name html st tag_name =
     (let w = takeWhile (\<lambda>c. c \<noteq> CHR ''>'') (drop (pos st) html) in
      Some (if w = [] \<or> length tag_name + length w \<le> 256
            then Inr (st\<lparr>strlen_calls := strlen_calls st + length w + 1,
                         pos := pos st + length w\<rparr>, tag_name @ w)
            else Inl TagNameOverflow))"
proof (induction "length html - pos st" arbitrary: st tag_name)
  case 0
  then have "drop (pos st) html = []" by simp
  then show ?case
    using 0 by (subst extract_tag_name.simps) (simp add: strlen_def)
next
  case (Suc k)
  then have lt: "pos st < length html" by simp
  then have dr: "drop (pos st) html = html ! pos st # drop (Suc (pos st)) html"
    by (simp add: Cons_nth_drop_Suc)
  show ?case
  proof (cases "html ! pos st = CHR ''>''")
    case True
    then show ?thesis
      using lt dr by (subst extract_tag_name.simps) (simp add: strlen_def)
  next
    case False
    let ?st' = "st\<lparr>strlen_calls := strlen_calls st + 1, pos := pos st + 1\<rparr>"
    have k: "k = length html - pos ?st'" using Suc.hyps(2) by simp
    show ?thesis
    proof (cases "length tag_name < 256")
      case True
      then show ?thesis
        using lt dr False Suc.hyps(1)[OF k, of "tag_name @ [html ! pos st]"]
        by (subst extract_tag_name.simps) (auto simp add: strlen_def Let_def)
    next
      case False2: False
      then show ?thesis
        using lt dr False
        by (subst extract_tag_name.simps) (simp add: strlen_def Let_def)
    qed
  qed
qed


subsection \<open>One iteration of the main loop\<close>

lemma push_token_Inr:
  assumes "push_token ty d st = Inr st'"
  shows "pos st' = pos st" and "buffer st' = buffer st"
    and "strlen_calls st' = strlen_calls st"
    and "tokens st' = tokens st @ [\<lparr>type = ty, data = d\<rparr>]"
  using assms by (auto simp add: push_token_def Let_def split: if_splits)

lemma flush_text_Inr:
  assumes "flush_text st = Inr st'"
  shows "pos st' = pos st" and "buffer st' = []"
    and "strlen_calls st' = strlen_calls st"
    and "tokens st' = tokens st @
           (if buffer st = [] then [] else [\<lparr>type = Text, data = buffer st\<rparr>])"
  using assms
  by (auto simp add: flush_text_def split: if_splits sum.splits dest: push_token_Inr)

lemma read_tag_eq:
  "read_tag html st =
     (let is_end_tag = (pos st + 1 < length html \<and> html ! (pos st + 1) = CHR ''/'');
          p = pos st + (if is_end_tag then 2 else 1);
          w = takeWhile (\<lambda>c. c \<noteq> CHR ''>'') (drop p html)
      in Some (if length w < 256
               then push_token (if is_end_tag then EndTag else StartTag) w
                      (st\<lparr>strlen_calls := strlen_calls st + length w + 2,
                          pos := p + length w + 1\<rparr>)
               else Inl TagNameOverflow))"
  by (auto simp add: read_tag_def strlen_def extract_tag_name_eq Let_def)

lemma read_tag_Inr:
  assumes "read_tag html st = Some (Inr st')"
  defines "is_end_tag \<equiv> pos st + 1 < length html \<and> html ! (pos st + 1) = CHR ''/''"
  defines "p \<equiv> pos st + (if is_end_tag then 2 else 1)"
  defines "w \<equiv> takeWhile (\<lambda>c. c \<noteq> CHR ''>'') (drop p html)"
  shows "pos st' = p + length w + 1" and "buffer st' = buffer st"
    and "strlen_calls st' = strlen_calls st + length w + 2"
    and "tokens st' = tokens st @ [\<lparr>type = (if is_end_tag then EndTag else StartTag), data = w\<rparr>]"
    and "length w < 256"
  using assms(1) unfolding read_tag_eq Let_def is_end_tag_def p_def w_def
  by (auto split: if_splits dest: push_token_Inr)

lemma tokenize_body_total: "\<exists>r. tokenize_body html st = Some r"
  by (auto simp add: tokenize_body_def read_tag_eq Let_def split: sum.splits)

lemma tokenize_body_text:
  assumes "html ! pos st \<noteq> CHR ''<''" and "tokenize_body html st = Some (Inr st')"
  shows "st' = st\<lparr>buffer := buffer st @ [html ! pos st], pos := pos st + 1\<rparr>"
    and "length (buffer st) < 1024"
  using assms by (auto simp add: tokenize_body_def Let_def split: if_splits)

lemma tokenize_body_tag:
  assumes "html ! pos st = CHR ''<''" and "tokenize_body html st = Some (Inr st')"
  defines "is_end_tag \<equiv> pos st + 1 < length html \<and> html ! (pos st + 1) = CHR ''/''"
  defines "p \<equiv> pos st + (if is_end_tag then 2 else 1)"
  defines "w \<equiv> takeWhile (\<lambda>c. c \<noteq> CHR ''>'') (drop p html)"
  shows "pos st' = p + length w + 1" and "buffer st' = []"
    and "strlen_calls st' = strlen_calls st + length w + 2"
    and "tokens st' = tokens st
           @ (if buffer st = [] then [] else [\<lparr>type = Text, data = buffer st\<rparr>])
           @ [\<lparr>type = (if is_end_tag then EndTag else StartTag), data = w\<rparr>]"
    and "length w < 256"
proof -
  from assms(1,2) obtain st1 where f: "flush_text st = Inr st1"
    and r: "read_tag html st1 = Some (Inr st')"
    by (auto simp add: tokenize_body_def Let_def split: sum.splits)
  note fl = flush_text_Inr[OF f]
  note rd = read_tag_Inr[OF r, unfolded fl]
  show "pos st' = p + length w + 1" using rd(1) by (simp add: p_def w_def is_end_tag_def)
  show "buffer st' = []" using rd(2) by simp
  show "strlen_calls st' = strlen_calls st + length w + 2"
    using rd(3) by (simp add: p_def w_def is_end_tag_def)
  show "tokens st' = tokens st
           @ (if buffer st = [] then [] else [\<lparr>type = Text, data = buffer st\<rparr>])
           @ [\<lparr>type = (if is_end_tag then EndTag else StartTag), data = w\<rparr>]"
    using rd(4) by (simp add: p_def w_def is_end_tag_def)
  show "length w < 256" using rd(5) by (simp add: p_def w_def is_end_tag_def)
qed

lemma length_takeWhile_drop: "p + length (takeWhile P (drop p xs)) \<le> max p (length xs)"
proof -
  have "length (takeWhile P (drop p xs)) \<le> length (drop p xs)"
    by (rule length_takeWhile_le)
  then show ?thesis by simp
qed

lemma tokenize_body_pos:
  assumes "pos st < length html" and "tokenize_body html st = Some (Inr st')"
  shows "pos st < pos st'" and "pos st' \<le> length html + 1"
proof -
  have "pos st < pos st' \<and> pos st' \<le> length html + 1"
  proof (cases "html ! pos st = CHR ''<''")
    case True
    let ?e = "pos st + 1 < length html \<and> html ! (pos st + 1) = CHR ''/''"
    let ?p = "pos st + (if ?e then 2 else 1)"
    have "?p \<le> length html" using assms(1) by auto
    then have "?p + length (takeWhile (\<lambda>c. c \<noteq> CHR ''>'') (drop ?p html)) \<le> length html"
      using length_takeWhile_drop[of ?p "\<lambda>c. c \<noteq> CHR ''>''" html] by simp
    then show ?thesis
      using tokenize_body_tag(1)[OF True assms(2)] by (auto split: if_splits)
  next
    case False
    then show ?thesis using tokenize_body_text(1)[OF False assms(2)] assms(1) by simp
  qed
  then show "pos st < pos st'" and "pos st' \<le> length html + 1" by simp_all
qed

subsection \<open>The main loop\<close>

lemma tokenize_loop_unfold:
  "tokenize_loop html st =
     (if pos st < length html then
        (case tokenize_body html (st\<lparr>strlen_calls := strlen_calls st + 1\<rparr>) of
           None \<Rightarrow> None
         | Some (Inl e) \<Rightarrow> Some (Inl e)
         | Some (Inr st2) \<Rightarrow> tokenize_loop html st2)
      else Some (Inr (st\<lparr>strlen_calls := strlen_calls st + 1\<rparr>)))"
  by (subst tokenize_loop.simps) (simp add: strlen_def)

lemma tokenize_loop_induct [case_names step]:
  assumes "\<And>st. (\<And>st'. pos st < length html \<Longrightarrow>
              tokenize_body html (st\<lparr>strlen_calls := strlen_calls st + 1\<rparr>) = Some (Inr st') \<Longrightarrow>
              P st') \<Longrightarrow> P st"
  shows "P st"
proof (induction "length html + 1 - pos st" arbitrary: st rule: less_induct)
  case less
  show ?case
  proof (rule assms)
    fix st'
    assume lt: "pos st < length html"
      and b: "tokenize_body html (st\<lparr>strlen_calls := strlen_calls st + 1\<rparr>) = Some (Inr st')"
    have "pos st < pos st'" using tokenize_body_pos(1)[OF _ b] lt by simp
    then have "length html + 1 - pos st' < length html + 1 - pos st" using lt by simp
    then show "P st'" by (rule less)
  qed
qed

lemma tokenize_loop_total: "\<exists>r. tokenize_loop html st = Some r"
proof (induction st rule: tokenize_loop_induct[of html])
  case (step st)
  show ?case
  proof (cases "pos st < length html")
    case True
    obtain r where r: "tokenize_body html (st\<lparr>strlen_calls := strlen_calls st + 1\<rparr>) = Some r"
      using tokenize_body_total by blast
    show ?thesis
    proof (cases r)
      case (Inl e)
      then show ?thesis using True r by (subst tokenize_loop_unfold) simp
    next
      case (Inr st')
      then show ?thesis using True r step[of st'] by (subst tokenize_loop_unfold) simp
    qed
  next
    case False
    then show ?thesis by (subst tokenize_loop_unfold) simp
  qed
qed


text \<open>An invariant of the loop's iterations holds when the loop is left.\<close>

lemma tokenize_loop_invariant:
  assumes run: "tokenize_loop html st = Some (Inr fin)"
    and inv: "I st"
    and body: "\<And>s s'. I s \<Longrightarrow> pos s < length html \<Longrightarrow>
                 tokenize_body html (s\<lparr>strlen_calls := strlen_calls s + 1\<rparr>) = Some (Inr s') \<Longrightarrow>
                 I s'"
  shows "\<exists>s. I s \<and> length html \<le> pos s \<and> fin = s\<lparr>strlen_calls := strlen_calls s + 1\<rparr>"
  using run inv
proof (induction st rule: tokenize_loop_induct[of html])
  case (step st)
  show ?case
  proof (cases "pos st < length html")
    case True
    with step.prems(1) obtain st' where
      b: "tokenize_body html (st\<lparr>strlen_calls := strlen_calls st + 1\<rparr>) = Some (Inr st')"
      and l: "tokenize_loop html st' = Some (Inr fin)"
      by (subst (asm) tokenize_loop_unfold) (auto split: option.splits sum.splits)
    have "I st'" using body[OF step.prems(2) True b] .
    then show ?thesis using step.IH[OF True b l] by simp
  next
    case False
    with step.prems(1) have "fin = st\<lparr>strlen_calls := strlen_calls st + 1\<rparr>"
      by (subst (asm) tokenize_loop_unfold) simp
    then show ?thesis using step.prems(2) False by auto
  qed
qed

lemma tokenize_run_Inr:
  assumes "tokenize_run html cap = Some (Inr fin)"
  obtains s where "tokenize_loop html (tokenize_init cap) = Some (Inr s)"
    and "flush_remaining s = Inr fin"
  using assms by (auto simp add: tokenize_run_def split: option.splits sum.splits)

lemma tokenize_Inr:
  assumes "tokenize html cap = Some (Inr (toks, cap'))"
  obtains fin where "tokenize_run html cap = Some (Inr fin)" and "toks = tokens fin"
  using assms by (auto simp add: tokenize_def split: option.splits sum.splits)

lemma flush_remaining_Inr:
  assumes "flush_remaining st = Inr st'"
  shows "pos st' = pos st" and "strlen_calls st' = strlen_calls st"
    and "tokens st' = tokens st @
           (if buffer st = [] then [] else [\<lparr>type = Text, data = buffer st\<rparr>])"
  using assms by (auto simp add: flush_remaining_def split: if_splits dest: push_token_Inr)

subsection \<open>No empty text token\<close>


lemma tokenize_run_texts_nonempty:
  assumes "tokenize_run html cap = Some (Inr fin)"
  shows "\<forall>t \<in> set (tokens fin). type t = Text \<longrightarrow> data t \<noteq> []"
proof -
  let ?I = "\<lambda>s. \<forall>t \<in> set (tokens s). type t = Text \<longrightarrow> data t \<noteq> []"
  from assms obtain s where l: "tokenize_loop html (tokenize_init cap) = Some (Inr s)"
    and f: "flush_remaining s = Inr fin" by (rule tokenize_run_Inr)
  have "\<exists>s0. ?I s0 \<and> length html \<le> pos s0 \<and> s = s0\<lparr>strlen_calls := strlen_calls s0 + 1\<rparr>"
  proof (rule tokenize_loop_invariant[OF l, where I = ?I])
    show "?I (tokenize_init cap)" by (simp add: tokenize_init_def)
  next
    fix s s'
    assume i: "?I s" and "pos s < length html"
      and b: "tokenize_body html (s\<lparr>strlen_calls := strlen_calls s + 1\<rparr>) = Some (Inr s')"
    show "?I s'"
    proof (cases "html ! pos s = CHR ''<''")
      case True
      then have "html ! pos (s\<lparr>strlen_calls := strlen_calls s + 1\<rparr>) = CHR ''<''" by simp
      from tokenize_body_tag(4)[OF this b] i show ?thesis by auto
    next
      case False
      then have "html ! pos (s\<lparr>strlen_calls := strlen_calls s + 1\<rparr>) \<noteq> CHR ''<''" by simp
      from tokenize_body_text(1)[OF this b] i show ?thesis by simp
    qed
  qed
  then have "?I s" by auto
  then show ?thesis using flush_remaining_Inr(3)[OF f] by auto
qed

subsection \<open>Counting tokens and calls of strlen\<close>

lemma tokenize_run_counts:
  assumes "tokenize_run html cap = Some (Inr fin)"
  shows "length (tokens fin) \<le> length html"
    and "length html + 1 \<le> strlen_calls fin"
    and "strlen_calls fin \<le> 2 * length html + 3"
proof -
  let ?I = "\<lambda>s. length (tokens s) + (if buffer s = [] then 0 else 1) \<le> min (pos s) (length html)
              \<and> pos s \<le> length html + 1
              \<and> pos s \<le> strlen_calls s \<and> strlen_calls s \<le> 2 * pos s"
  from assms obtain s where l: "tokenize_loop html (tokenize_init cap) = Some (Inr s)"
    and f: "flush_remaining s = Inr fin" by (rule tokenize_run_Inr)
  have "\<exists>s0. ?I s0 \<and> length html \<le> pos s0 \<and> s = s0\<lparr>strlen_calls := strlen_calls s0 + 1\<rparr>"
  proof (rule tokenize_loop_invariant[OF l, where I = ?I])
    show "?I (tokenize_init cap)" by (simp add: tokenize_init_def)
  next
    fix s s'
    assume i: "?I s" and lt: "pos s < length html"
      and b: "tokenize_body html (s\<lparr>strlen_calls := strlen_calls s + 1\<rparr>) = Some (Inr s')"
    let ?s1 = "s\<lparr>strlen_calls := strlen_calls s + 1\<rparr>"
    have lt1: "pos ?s1 < length html" using lt by simp
    note p = tokenize_body_pos[OF lt1 b]
    show "?I s'"
    proof (cases "html ! pos s = CHR ''<''")
      case True
      then have "html ! pos ?s1 = CHR ''<''" by simp
      note t = tokenize_body_tag[OF this b]
      show ?thesis using i lt p t(1,2,3,4) by (auto split: if_splits)
    next
      case False
      then have "html ! pos ?s1 \<noteq> CHR ''<''" by simp
      from tokenize_body_text(1)[OF this b] i lt show ?thesis by auto
    qed
  qed
  then obtain s0 where s0: "?I s0" "length html \<le> pos s0"
    "s = s0\<lparr>strlen_calls := strlen_calls s0 + 1\<rparr>" by blast
  note fr = flush_remaining_Inr[OF f]
  show "length (tokens fin) \<le> length html" using s0 fr(3) by (auto split: if_splits)
  show "length html + 1 \<le> strlen_calls fin" using s0 fr(2) by auto
  show "strlen_calls fin \<le> 2 * length html + 3" using s0 fr(2) by auto
qed


subsection \<open>The caller's capacity\<close>

lemma push_token_cap_ok:
  assumes "cap_ok s"
  shows "\<exists>s'. push_token ty d s = Inr s' \<and> cap_ok s'"
  using assms by (auto simp add: push_token_def cap_ok_def Let_def)

lemma push_token_same:
  assumes "same_but_cap s t"
  shows "same_result (push_token ty d s) (push_token ty d t)"
proof -
  from assms have s: "cap_ok s" and t: "cap_ok t" by (simp_all add: same_but_cap_def)
  from push_token_cap_ok[OF s, of ty d] obtain s' where
    ps: "push_token ty d s = Inr s'" and cs: "cap_ok s'" by blast
  from push_token_cap_ok[OF t, of ty d] obtain t' where
    pt: "push_token ty d t = Inr t'" and ct: "cap_ok t'" by blast
  show ?thesis
    using assms cs ct push_token_Inr[OF ps] push_token_Inr[OF pt]
    by (simp add: ps pt same_result_def same_but_cap_def)
qed

lemma flush_text_same:
  assumes "same_but_cap s t"
  shows "same_result (flush_text s) (flush_text t)"
proof -
  have b: "buffer t = buffer s" using assms by (simp add: same_but_cap_def)
  have p: "same_result (push_token Text (buffer s) s) (push_token Text (buffer s) t)"
    by (rule push_token_same[OF assms])
  have u: "same_but_cap a c \<Longrightarrow> same_but_cap (a\<lparr>buffer := []\<rparr>) (c\<lparr>buffer := []\<rparr>)" for a c
    by (auto simp add: same_but_cap_def cap_ok_def)
  show ?thesis
    unfolding flush_text_def b
    using p assms by (auto simp add: same_result_def u split: sum.splits)
qed

lemma flush_remaining_same:
  assumes "same_but_cap s t"
  shows "same_result (flush_remaining s) (flush_remaining t)"
proof -
  have b: "buffer t = buffer s" using assms by (simp add: same_but_cap_def)
  have p: "same_result (push_token Text (buffer s) s) (push_token Text (buffer s) t)"
    by (rule push_token_same[OF assms])
  show ?thesis
    unfolding flush_remaining_def b
    using p assms by (auto simp add: same_result_def)
qed

lemma read_tag_same:
  assumes "same_but_cap s t"
  shows "\<exists>r r'. read_tag html s = Some r \<and> read_tag html t = Some r' \<and> same_result r r'"
proof -
  have f: "pos t = pos s" "strlen_calls t = strlen_calls s"
    using assms by (simp_all add: same_but_cap_def)
  have u: "same_but_cap (s\<lparr>strlen_calls := k, pos := p\<rparr>) (t\<lparr>strlen_calls := k, pos := p\<rparr>)"
    for k p using assms by (auto simp add: same_but_cap_def cap_ok_def)
  show ?thesis
    unfolding read_tag_eq Let_def f
    by (auto simp add: same_result_def[of "Inl _"] intro!: push_token_same u)
qed

lemma tokenize_body_same:
  assumes "same_but_cap s t"
  shows "\<exists>r r'. tokenize_body html s = Some r \<and> tokenize_body html t = Some r' \<and>
           same_result r r'"
proof -
  have f: "pos t = pos s" "buffer t = buffer s"
    using assms by (simp_all add: same_but_cap_def)
  show ?thesis
  proof (cases "html ! pos s = CHR ''<''")
    case True
    show ?thesis
    proof (cases "flush_text s")
      case (Inl e)
      with flush_text_same[OF assms] have "flush_text t = Inl e"
        by (simp add: same_result_def)
      with Inl True show ?thesis by (simp add: tokenize_body_def f same_result_def)
    next
      case (Inr s1)
      with flush_text_same[OF assms] obtain t1 where t1: "flush_text t = Inr t1"
        and st: "same_but_cap s1 t1"
        by (auto simp add: same_result_def)
      from read_tag_same[OF st, of html] Inr t1 True show ?thesis
        by (simp add: tokenize_body_def f)
    qed
  next
    case False
    have "same_but_cap (s\<lparr>buffer := b, pos := p\<rparr>) (t\<lparr>buffer := b, pos := p\<rparr>)" for b p
      using assms by (auto simp add: same_but_cap_def cap_ok_def)
    with False show ?thesis
      by (simp add: tokenize_body_def f same_result_def Let_def)
  qed
qed

lemma tokenize_loop_same:
  assumes "same_but_cap s t"
  shows "\<exists>r r'. tokenize_loop html s = Some r \<and> tokenize_loop html t = Some r' \<and>
           same_result r r'"
  using assms
proof (induction s arbitrary: t rule: tokenize_loop_induct[of html])
  case (step s)
  have f: "pos t = pos s" "strlen_calls t = strlen_calls s"
    using step.prems by (simp_all add: same_but_cap_def)
  let ?s1 = "s\<lparr>strlen_calls := strlen_calls s + 1\<rparr>"
  let ?t1 = "t\<lparr>strlen_calls := strlen_calls s + 1\<rparr>"
  have st1: "same_but_cap ?s1 ?t1"
    using step.prems by (auto simp add: same_but_cap_def cap_ok_def)
  show ?case
  proof (cases "pos s < length html")
    case True
    from tokenize_body_same[OF st1, of html] obtain r r' where
      r: "tokenize_body html ?s1 = Some r" and r': "tokenize_body html ?t1 = Some r'"
      and rr: "same_result r r'" by blast
    show ?thesis
    proof (cases r)
      case (Inl e)
      with rr have "r' = Inl e" by (simp add: same_result_def)
      with Inl r r' True show ?thesis
        by (subst (1 2) tokenize_loop_unfold) (simp add: f same_result_def)
    next
      case (Inr s2)
      with rr obtain t2 where t2: "r' = Inr t2" and s2t2: "same_but_cap s2 t2"
        by (auto simp add: same_result_def)
      from step.IH[OF True _ s2t2] r Inr
      obtain q q' where "tokenize_loop html s2 = Some q" "tokenize_loop html t2 = Some q'"
        "same_result q q'" by auto
      with Inr t2 r r' True show ?thesis
        by (subst (1 2) tokenize_loop_unfold) (simp add: f)
    qed
  next
    case False
    then show ?thesis
      using st1 by (subst (1 2) tokenize_loop_unfold) (simp add: f same_result_def)
  qed
qed

text \<open>
  Every positive capacity gives the same tokens (or the same error): the capacity only
  says when the array is reallocated.
\<close>

lemma tokenize_capacity_irrelevant:
  assumes "0 < cap" and "0 < cap'"
  shows "(\<exists>e. tokenize html cap = Some (Inl e) \<and> tokenize html cap' = Some (Inl e)) \<or>
         (\<exists>toks c c'. tokenize html cap = Some (Inr (toks, c)) \<and>
                       tokenize html cap' = Some (Inr (toks, c')))"
proof -
  have i: "same_but_cap (tokenize_init cap) (tokenize_init cap')"
    using assms by (simp add: same_but_cap_def cap_ok_def tokenize_init_def)
  from tokenize_loop_same[OF i, of html] obtain r r' where
    r: "tokenize_loop html (tokenize_init cap) = Some r"
    and r': "tokenize_loop html (tokenize_init cap') = Some r'"
    and rr: "same_result r r'" by blast
  show ?thesis
  proof (cases r)
    case (Inl e)
    with rr have "r' = Inl e" by (simp add: same_result_def)
    with Inl r r' show ?thesis by (simp add: tokenize_def tokenize_run_def)
  next
    case (Inr s)
    with rr obtain t where t: "r' = Inr t" and st: "same_but_cap s t"
      by (auto simp add: same_result_def)
    show ?thesis
    proof (cases "flush_remaining s")
      case Inl2: (Inl e)
      with flush_remaining_same[OF st] have "flush_remaining t = Inl e"
        by (simp add: same_result_def)
      with Inl2 Inr t r r' show ?thesis by (simp add: tokenize_def tokenize_run_def)
    next
      case Inr2: (Inr s')
      with flush_remaining_same[OF st] obtain t' where "flush_remaining t = Inr t'"
        and "same_but_cap s' t'" by (auto simp add: same_result_def)
      with Inr2 Inr t r r' show ?thesis
        by (simp add: tokenize_def tokenize_run_def same_but_cap_def)
    qed
  qed
qed

lemma tokenize_any_capacity:
  assumes "tokenize html 16 = Some (Inr (toks, c))" and "0 < cap"
  shows "\<exists>cap'. tokenize html cap = Some (Inr (toks, cap'))"
  using tokenize_capacity_irrelevant[of 16 cap html] assms by auto


subsection \<open>A tag that the input does not close\<close>

lemma takeWhile_drop_le:
  assumes "p \<le> j" and "j < length xs" and "\<not> P (xs ! j)"
  shows "p + length (takeWhile P (drop p xs)) \<le> j"
proof (rule ccontr)
  assume "\<not> p + length (takeWhile P (drop p xs)) \<le> j"
  then have lt: "j - p < length (takeWhile P (drop p xs))" using assms(1) by simp
  then have "takeWhile P (drop p xs) ! (j - p) = drop p xs ! (j - p)"
    by (rule takeWhile_nth)
  moreover have "drop p xs ! (j - p) = xs ! j" using assms(1,2) by simp
  moreover have "takeWhile P (drop p xs) ! (j - p) \<in> set (takeWhile P (drop p xs))"
    using lt by simp
  ultimately have "P (xs ! j)" by (metis set_takeWhileD)
  with assms(3) show False by simp
qed

lemma tokenize_body_unclosed_tag:
  assumes lt: "pos st < length html" and c: "html ! pos st = CHR ''<''"
    and no: "CHR ''>'' \<notin> set (drop (pos st) html)"
    and b: "tokenize_body html st = Some (Inr st')"
  shows "pos st' = length html + 1" and "buffer st' = []"
    and "tokens st' = tokens st
           @ (if buffer st = [] then [] else [\<lparr>type = Text, data = buffer st\<rparr>])
           @ [if pos st + 1 < length html \<and> html ! (pos st + 1) = CHR ''/''
              then \<lparr>type = EndTag, data = drop (pos st + 2) html\<rparr>
              else \<lparr>type = StartTag, data = drop (pos st + 1) html\<rparr>]"
proof -
  define e where "e = (pos st + 1 < length html \<and> html ! (pos st + 1) = CHR ''/'')"
  define p where "p = pos st + (if e then 2 else 1)"
  define w where "w = takeWhile (\<lambda>c. c \<noteq> CHR ''>'') (drop p html)"
  note t = tokenize_body_tag[OF c b, folded e_def, folded p_def, folded w_def]
  have "set (drop p html) \<subseteq> set (drop (pos st) html)"
    by (rule set_drop_subset_set_drop) (simp add: p_def)
  with no have "\<forall>x \<in> set (drop p html). x \<noteq> CHR ''>''" by blast
  then have w: "w = drop p html" unfolding w_def by (simp only: takeWhile_eq_all_conv)
  have p: "p \<le> length html" using lt by (auto simp add: p_def e_def)
  show "pos st' = length html + 1" using t(1) w p by simp
  show "buffer st' = []" by (rule t(2))
  have "\<lparr>type = (if e then EndTag else StartTag), data = w\<rparr>
        = (if e then \<lparr>type = EndTag, data = drop (pos st + 2) html\<rparr>
           else \<lparr>type = StartTag, data = drop (pos st + 1) html\<rparr>)"
    using w by (simp add: p_def)
  then show "tokens st' = tokens st
           @ (if buffer st = [] then [] else [\<lparr>type = Text, data = buffer st\<rparr>])
           @ [if pos st + 1 < length html \<and> html ! (pos st + 1) = CHR ''/''
              then \<lparr>type = EndTag, data = drop (pos st + 2) html\<rparr>
              else \<lparr>type = StartTag, data = drop (pos st + 1) html\<rparr>]"
    using t(4) unfolding e_def by simp
qed

lemma tokenize_body_closed_tag:
  assumes c: "html ! pos st = CHR ''<''"
    and j: "pos st < j" "j < length html" "html ! j = CHR ''>''"
    and b: "tokenize_body html st = Some (Inr st')"
  shows "pos st' \<le> j + 1"
proof -
  let ?e = "pos st + 1 < length html \<and> html ! (pos st + 1) = CHR ''/''"
  let ?p = "pos st + (if ?e then 2 else 1)"
  note t = tokenize_body_tag(1)[OF c b]
  have "j \<noteq> pos st + 1" if "html ! (pos st + 1) = CHR ''/''"
    using that j(3) by auto
  then have "?p \<le> j" using j(1) by (cases "j = pos st + 1") auto
  then have "?p + length (takeWhile (\<lambda>c. c \<noteq> CHR ''>'') (drop ?p html)) \<le> j"
    using j by (intro takeWhile_drop_le) simp_all
  then show ?thesis using t by simp
qed

lemma tokenize_loop_reaches:
  assumes html: "html = pre @ CHR ''<'' # rest"
    and closed: "\<forall>i < length pre. pre ! i = CHR ''<'' \<longrightarrow> CHR ''>'' \<in> set (drop i pre)"
    and run: "tokenize_loop html st = Some (Inr fin)"
    and le: "pos st \<le> length pre"
  shows "\<exists>s. pos s = length pre \<and> tokenize_loop html s = Some (Inr fin)"
  using run le
proof (induction st rule: tokenize_loop_induct[of html])
  case (step st)
  show ?case
  proof (cases "pos st = length pre")
    case True
    then show ?thesis using step.prems(1) by blast
  next
    case False
    with step.prems(2) have lt: "pos st < length pre" by simp
    then have ltn: "pos st < length html" using html by simp
    let ?s1 = "st\<lparr>strlen_calls := strlen_calls st + 1\<rparr>"
    from step.prems(1) ltn obtain st' where
      b: "tokenize_body html ?s1 = Some (Inr st')"
      and l: "tokenize_loop html st' = Some (Inr fin)"
      by (subst (asm) tokenize_loop_unfold) (auto split: option.splits sum.splits)
    have "pos st' \<le> length pre"
    proof (cases "html ! pos st = CHR ''<''")
      case True
      then have "pre ! pos st = CHR ''<''" using lt html by (simp add: nth_append)
      with closed lt have "CHR ''>'' \<in> set (drop (pos st) pre)" by blast
      then obtain k where k: "k < length pre - pos st" "drop (pos st) pre ! k = CHR ''>''"
        by (auto simp add: in_set_conv_nth)
      let ?j = "pos st + k"
      have j: "?j < length pre" "pre ! ?j = CHR ''>''" using k lt by simp_all
      then have hj: "html ! ?j = CHR ''>''" "?j < length html"
        using html by (simp_all add: nth_append)
      have "k \<noteq> 0" using j(2) \<open>pre ! pos st = CHR ''<''\<close> by (cases k) auto
      then have "pos ?s1 < ?j" by simp
      moreover have "html ! pos ?s1 = CHR ''<''" using True by simp
      ultimately have "pos st' \<le> ?j + 1"
        using hj b by (intro tokenize_body_closed_tag[of html ?s1 ?j st']) simp_all
      then show ?thesis using j(1) by simp
    next
      case False
      then have "html ! pos ?s1 \<noteq> CHR ''<''" by simp
      from tokenize_body_text(1)[OF this b] lt show ?thesis by simp
    qed
    then show ?thesis using step.IH[OF ltn b l] by simp
  qed
qed

lemma tokenize_loop_unclosed_tag:
  assumes html: "html = pre @ CHR ''<'' # rest"
    and no: "CHR ''>'' \<notin> set rest"
    and q: "pos st = length pre"
    and run: "tokenize_loop html st = Some (Inr fin)"
  shows "buffer fin = []"
    and "tokens fin = tokens st
           @ (if buffer st = [] then [] else [\<lparr>type = Text, data = buffer st\<rparr>])
           @ [if rest \<noteq> [] \<and> hd rest = CHR ''/''
              then \<lparr>type = EndTag, data = tl rest\<rparr>
              else \<lparr>type = StartTag, data = rest\<rparr>]"
proof -
  let ?s1 = "st\<lparr>strlen_calls := strlen_calls st + 1\<rparr>"
  have ltn: "pos st < length html" using html q by simp
  from run ltn obtain st' where
    b: "tokenize_body html ?s1 = Some (Inr st')"
    and l: "tokenize_loop html st' = Some (Inr fin)"
    by (subst (asm) tokenize_loop_unfold) (auto split: option.splits sum.splits)
  have c: "html ! pos ?s1 = CHR ''<''" using html q by simp
  have d: "drop (pos ?s1) html = CHR ''<'' # rest" using html q by simp
  then have no': "CHR ''>'' \<notin> set (drop (pos ?s1) html)" using no by simp
  have ltn1: "pos ?s1 < length html" using ltn by simp
  note u = tokenize_body_unclosed_tag[OF ltn1 c no' b]
  from l u(1) have fin: "fin = st'\<lparr>strlen_calls := strlen_calls st' + 1\<rparr>"
    by (subst (asm) tokenize_loop_unfold) simp
  show "buffer fin = []" using fin u(2) by simp
  have e: "(pos st + 1 < length html \<and> html ! (pos st + 1) = CHR ''/'')
           = (rest \<noteq> [] \<and> hd rest = CHR ''/'')"
    using html q by (cases rest) (simp_all add: nth_append)
  have d1: "drop (pos st + 1) html = rest" using html q by simp
  have d2: "drop (pos st + 2) html = tl rest" using html q by (cases rest) simp_all
  show "tokens fin = tokens st
           @ (if buffer st = [] then [] else [\<lparr>type = Text, data = buffer st\<rparr>])
           @ [if rest \<noteq> [] \<and> hd rest = CHR ''/''
              then \<lparr>type = EndTag, data = tl rest\<rparr>
              else \<lparr>type = StartTag, data = rest\<rparr>]"
    using fin u(3) e d1 d2 by simp
qed

subsection \<open>Inputs of any length on which the tokenizer returns\<close>

lemma empty_tags_drop:
  "j \<le> k \<Longrightarrow> drop (2 * j) (concat (replicate k ''<>'')) = concat (replicate (k - j) ''<>'')"
proof (induction k arbitrary: j)
  case 0
  then show ?case by simp
next
  case (Suc k)
  then show ?case by (cases j) simp_all
qed

lemma empty_tags_nth:
  assumes "j < k"
  shows "concat (replicate k ''<>'') ! (2 * j) = CHR ''<''"
    and "concat (replicate k ''<>'') ! (2 * j + 1) = CHR ''>''"
    and "drop (2 * j + 1) (concat (replicate k ''<>'')) = CHR ''>'' # concat (replicate (k - j - 1) ''<>'')"
proof -
  let ?h = "concat (replicate k ''<>'')"
  have len: "length ?h = 2 * k" by (simp add: length_concat sum_list_replicate)
  obtain m where m: "k - j = Suc m" using assms by (cases "k - j") simp_all
  have d: "drop (2 * j) ?h = CHR ''<'' # CHR ''>'' # concat (replicate m ''<>'')"
    using empty_tags_drop[of j k] assms m by simp
  have "?h ! (2 * j) = drop (2 * j) ?h ! 0" using assms len by simp
  then show "?h ! (2 * j) = CHR ''<''" using d by simp
  have "?h ! (2 * j + 1) = drop (2 * j) ?h ! 1" using assms len by simp
  then show "?h ! (2 * j + 1) = CHR ''>''" using d by simp
  have "drop (2 * j + 1) ?h = drop 1 (drop (2 * j) ?h)" by (simp add: add.commute)
  then show "drop (2 * j + 1) ?h = CHR ''>'' # concat (replicate (k - j - 1) ''<>'')"
    using d m by simp
qed

lemma tokenize_loop_empty_tags:
  assumes "pos st = 2 * j" and "j \<le> k" and "buffer st = []" and "cap_ok st"
  shows "\<exists>fin. tokenize_loop (concat (replicate k ''<>'')) st = Some (Inr fin) \<and> buffer fin = []"
  using assms
proof (induction st arbitrary: j rule: tokenize_loop_induct[of "concat (replicate k ''<>'')"])
  case (step st)
  let ?h = "concat (replicate k ''<>'')"
  have len: "length ?h = 2 * k" by (simp add: length_concat sum_list_replicate)
  let ?s1 = "st\<lparr>strlen_calls := strlen_calls st + 1\<rparr>"
  show ?case
  proof (cases "j < k")
    case True
    note n = empty_tags_nth[OF True]
    have lt: "pos st < length ?h" using True step.prems(1) len by simp
    let ?s2 = "st\<lparr>strlen_calls := strlen_calls st + 1 + 2, pos := 2 * j + 2\<rparr>"
    have "cap_ok ?s2" using step.prems(4) by (simp add: cap_ok_def)
    from push_token_cap_ok[OF this, of StartTag "[]"] obtain st' where
      p: "push_token StartTag [] ?s2 = Inr st'" and c: "cap_ok st'" by blast
    have b: "tokenize_body ?h ?s1 = Some (Inr st')"
      using n step.prems(1,3) True len p
      by (simp add: tokenize_body_def flush_text_def read_tag_eq Let_def)
    have "pos st' = 2 * (j + 1)" "buffer st' = []"
      using push_token_Inr(1,2)[OF p] step.prems(3) by simp_all
    from step.IH[OF lt b this(1) _ this(2) c] True
    obtain fin where "tokenize_loop ?h st' = Some (Inr fin)" "buffer fin = []" by auto
    then show ?thesis using lt b by (subst tokenize_loop_unfold) simp
  next
    case False
    then have "\<not> pos st < length ?h" using step.prems(1,2) len by simp
    then show ?thesis using step.prems(3) by (subst tokenize_loop_unfold) simp
  qed
qed

lemma tokenize_run_empty_tags:
  "\<exists>fin. tokenize_run (concat (replicate k ''<>'')) 16 = Some (Inr fin)"
proof -
  have "\<exists>fin. tokenize_loop (concat (replicate k ''<>'')) (tokenize_init 16) = Some (Inr fin)
          \<and> buffer fin = []"
    by (rule tokenize_loop_empty_tags[of _ 0]) (simp_all add: tokenize_init_def cap_ok_def)
  then show ?thesis by (auto simp add: tokenize_run_def flush_remaining_def)
qed


subsection \<open>An error that does not occur in the tokenizer\<close>

lemma tokenize_body_cap_ok:
  assumes "cap_ok s"
  shows "tokenize_body html s \<noteq> Some (Inl TokenArrayOverflow)"
    and "tokenize_body html s = Some (Inr s') \<Longrightarrow> cap_ok s'"
proof -
  have u: "cap_ok (x\<lparr>strlen_calls := k, pos := p\<rparr>)" if "cap_ok x" for x k p
    using that by (simp add: cap_ok_def)
  have f: "(\<exists>a. flush_text s = Inr a \<and> cap_ok a) \<or> flush_text s = Inl TextBufferOverflow"
    using push_token_cap_ok[OF assms, of Text "buffer s"] assms
    by (auto simp add: flush_text_def cap_ok_def)
  have r: "read_tag html a \<noteq> Some (Inl TokenArrayOverflow) \<and>
           (read_tag html a = Some (Inr s') \<longrightarrow> cap_ok s')" if "cap_ok a" for a
  proof -
    define e where "e = (pos a + 1 < length html \<and> html ! (pos a + 1) = CHR ''/'')"
    define p where "p = pos a + (if e then 2 else 1)"
    define w where "w = takeWhile (\<lambda>c. c \<noteq> CHR ''>'') (drop p html)"
    define a' where "a' = a\<lparr>strlen_calls := strlen_calls a + length w + 2, pos := p + length w + 1\<rparr>"
    have eq: "read_tag html a = Some (if length w < 256
               then push_token (if e then EndTag else StartTag) w a'
               else Inl TagNameOverflow)"
      unfolding read_tag_eq Let_def e_def p_def w_def a'_def by simp
    have "cap_ok a'" unfolding a'_def by (rule u[OF that])
    from push_token_cap_ok[OF this, of "if e then EndTag else StartTag" w]
    show ?thesis unfolding eq by auto
  qed
  show "tokenize_body html s \<noteq> Some (Inl TokenArrayOverflow)"
    using f r assms by (auto simp add: tokenize_body_def Let_def)
  show "tokenize_body html s = Some (Inr s') \<Longrightarrow> cap_ok s'"
    using f r assms by (auto simp add: tokenize_body_def Let_def cap_ok_def split: if_splits)
qed

lemma tokenize_loop_cap_ok:
  assumes "cap_ok s"
  shows "tokenize_loop html s \<noteq> Some (Inl TokenArrayOverflow) \<and>
         (\<forall>fin. tokenize_loop html s = Some (Inr fin) \<longrightarrow> cap_ok fin)"
  using assms
proof (induction s rule: tokenize_loop_induct[of html])
  case (step s)
  let ?s1 = "s\<lparr>strlen_calls := strlen_calls s + 1\<rparr>"
  have c1: "cap_ok ?s1" using step.prems by (simp add: cap_ok_def)
  show ?case
  proof (cases "pos s < length html")
    case True
    obtain r where r: "tokenize_body html ?s1 = Some r" using tokenize_body_total by blast
    show ?thesis
    proof (cases r)
      case (Inl e)
      with r tokenize_body_cap_ok(1)[OF c1, of html] have "e \<noteq> TokenArrayOverflow" by auto
      with Inl r True show ?thesis by (subst (1 2) tokenize_loop_unfold) simp
    next
      case (Inr s2)
      with r have b: "tokenize_body html ?s1 = Some (Inr s2)" by simp
      from step.IH[OF True b tokenize_body_cap_ok(2)[OF c1 b]] True b
      show ?thesis by (subst (1 2) tokenize_loop_unfold) simp
    qed
  next
    case False
    then show ?thesis using c1 by (subst (1 2) tokenize_loop_unfold) simp
  qed
qed

text \<open>Called with a positive capacity, \<open>tokenize\<close> never writes a token outside the array.\<close>

lemma tokenize_no_token_array_overflow:
  assumes "0 < cap"
  shows "tokenize html cap \<noteq> Some (Inl TokenArrayOverflow)"
proof -
  have i: "cap_ok (tokenize_init cap)" using assms by (simp add: cap_ok_def tokenize_init_def)
  note l = tokenize_loop_cap_ok[OF i, of html]
  obtain r where r: "tokenize_loop html (tokenize_init cap) = Some r"
    using tokenize_loop_total by blast
  show ?thesis
  proof (cases r)
    case (Inl e)
    with r l show ?thesis by (auto simp add: tokenize_def tokenize_run_def)
  next
    case (Inr s)
    with r l have "cap_ok s" by simp
    from push_token_cap_ok[OF this, of Text "buffer s"]
    have "flush_remaining s \<noteq> Inl TokenArrayOverflow"
      by (auto simp add: flush_remaining_def)
    with Inr r show ?thesis
      by (auto simp add: tokenize_def tokenize_run_def split: sum.splits)
  qed
qed

section \<open>Lemmas about the tree builder\<close>

lemmas build_defs =
  build_dom_def build_run_def build_init_def build_body_def create_node_def add_child_def
  stack_top_def stack_push_def Let_def

lemma build_loop_induct [case_names step]:
  assumes "\<And>i st. (\<And>st'. i < length toks \<Longrightarrow> build_body (toks ! i) st = Inr st' \<Longrightarrow>
              P (i + 1) st') \<Longrightarrow> P i st"
  shows "P i st"
proof (induction "length toks - i" arbitrary: i st rule: less_induct)
  case less
  show ?case
  proof (rule assms)
    fix st'
    assume "i < length toks"
    then have "length toks - (i + 1) < length toks - i" by simp
    then show "P (i + 1) st'" by (rule less)
  qed
qed

lemma build_loop_total: "\<exists>r. build_loop toks i st = Some r"
proof (induction i st rule: build_loop_induct[of toks])
  case (step i st)
  show ?case
  proof (cases "i < length toks")
    case True
    show ?thesis
    proof (cases "build_body (toks ! i) st")
      case (Inl e)
      then show ?thesis using True by (subst build_loop.simps) simp
    next
      case (Inr st')
      then show ?thesis using True step[of st'] by (subst build_loop.simps) simp
    qed
  next
    case False
    then show ?thesis by (subst build_loop.simps) simp
  qed
qed

lemma build_loop_invariant:
  assumes run: "build_loop toks i st = Some (Inr (j, fin))"
    and inv: "I i st"
    and body: "\<And>k s s'. I k s \<Longrightarrow> k < length toks \<Longrightarrow> build_body (toks ! k) s = Inr s' \<Longrightarrow>
                 I (k + 1) s'"
  shows "I j fin \<and> length toks \<le> j"
  using run inv
proof (induction i st rule: build_loop_induct[of toks])
  case (step i st)
  show ?case
  proof (cases "i < length toks")
    case True
    with step.prems(1) obtain st' where b: "build_body (toks ! i) st = Inr st'"
      and l: "build_loop toks (i + 1) st' = Some (Inr (j, fin))"
      by (subst (asm) build_loop.simps) (auto split: sum.splits)
    have "I (i + 1) st'" using body[OF step.prems(2) True b] .
    then show ?thesis using step.IH[OF True b l] by simp
  next
    case False
    with step.prems(1) have "j = i" and "fin = st"
      by (subst (asm) build_loop.simps, simp)+
    then show ?thesis using step.prems(2) False by simp
  qed
qed

lemma build_run_Inr:
  assumes "build_dom toks = Some (Inr (root, h))"
  obtains i st where "build_run toks = Some (Inr (i, st))" and "h = heap st" and "root = 0"
  using assms
  by (auto simp add: build_dom_def build_init_def create_node_def
      split: option.splits sum.splits)

subsection \<open>The open elements and the text nodes\<close>

lemma add_child_Inr:
  assumes "add_child parent child h = Inr h'"
  shows "parent < length h" and "length h' = length h"
    and "\<forall>a < length h. a \<noteq> parent \<longrightarrow> h' ! a = h ! a"
    and "is_text (h' ! parent) = is_text (h ! parent)"
    and "name (h' ! parent) = name (h ! parent)"
    and "children (h' ! parent) = children (h ! parent) @ [child]"
  using assms by (auto simp add: add_child_def Let_def split: if_splits)

lemma add_child_texts:
  assumes a: "add_child parent child h = Inr h'"
    and p: "\<not> is_text (h ! parent)"
    and t: "\<forall>n \<in> set h. is_text n \<longrightarrow> children n = []"
  shows "\<forall>n \<in> set h'. is_text n \<longrightarrow> children n = []"
proof
  fix n assume "n \<in> set h'"
  then obtain a' where a': "a' < length h'" "n = h' ! a'" by (auto simp add: in_set_conv_nth)
  note ac = add_child_Inr[OF a]
  show "is_text n \<longrightarrow> children n = []"
  proof (cases "a' = parent")
    case True
    then show ?thesis using a' ac(4) p by simp
  next
    case False
    then have "n = h ! a'" using a' ac(2,3) by simp
    then show ?thesis using t a' ac(2) by auto
  qed
qed

lemma build_body_stack_valid:
  assumes v: "stack_valid st" and b: "build_body tok st = Inr st'"
  shows "stack_valid st'"
proof (cases "type tok")
  case EndTag
  then have "st' = st\<lparr>stack := butlast (stack st)\<rparr> \<or> st' = st"
    using b by (auto simp add: build_body_def split: if_splits)
  moreover have "a \<in> set (butlast (stack st)) \<Longrightarrow> a \<in> set (stack st)" for a
    by (rule in_set_butlastD)
  ultimately show ?thesis using v by (fastforce simp add: stack_valid_def)
next
  case StartTag
  let ?node = "length (heap st)"
  let ?h1 = "heap st @ [\<lparr>name = data tok, children = [], child_capacity = 4, is_text = False\<rparr>]"
  from b StartTag obtain h2 where ne: "stack st \<noteq> []"
    and a: "add_child (last (stack st)) ?node ?h1 = Inr h2"
    and s: "stack_push ?node (st\<lparr>heap := h2\<rparr>) = Inr st'"
    by (auto simp add: build_body_def create_node_def stack_top_def
        split: if_splits sum.splits)
  from s have st': "st' = \<lparr>heap = h2, stack = stack st @ [?node]\<rparr>"
    by (auto simp add: stack_push_def split: if_splits)
  note ac = add_child_Inr[OF a]
  have pl: "last (stack st) < length (heap st)" "\<not> is_text (heap st ! last (stack st))"
    using v ne by (auto simp add: stack_valid_def)
  have p: "\<not> is_text (?h1 ! last (stack st))" using pl by (simp add: nth_append)
  have t: "\<forall>n \<in> set ?h1. is_text n \<longrightarrow> children n = []"
    using v by (auto simp add: stack_valid_def)
  have texts: "\<forall>n \<in> set h2. is_text n \<longrightarrow> children n = []"
    by (rule add_child_texts[OF a p t])
  have "a < length h2 \<and> \<not> is_text (h2 ! a)" if "a \<in> set (stack st @ [?node])" for a
  proof (cases "a = ?node")
    case True
    then have "h2 ! a = ?h1 ! a" using ac(3) pl(1) by simp
    then show ?thesis using True ac(2) by simp
  next
    case False
    with that have m: "a \<in> set (stack st)" by simp
    then have al: "a < length (heap st)" "\<not> is_text (heap st ! a)"
      using v by (auto simp add: stack_valid_def)
    show ?thesis
    proof (cases "a = last (stack st)")
      case True
      then show ?thesis using ac(2,4) p al by simp
    next
      case False
      then have "h2 ! a = ?h1 ! a" using ac(3) al(1) by simp
      then show ?thesis using al ac(2) by (simp add: nth_append)
    qed
  qed
  then show ?thesis using texts by (simp add: stack_valid_def st')
next
  case Text
  let ?node = "length (heap st)"
  let ?h1 = "heap st @ [\<lparr>name = data tok, children = [], child_capacity = 4, is_text = True\<rparr>]"
  from b Text obtain h2 where ne: "stack st \<noteq> []"
    and a: "add_child (last (stack st)) ?node ?h1 = Inr h2"
    and st': "st' = st\<lparr>heap := h2\<rparr>"
    by (auto simp add: build_body_def create_node_def stack_top_def
        split: if_splits sum.splits)
  note ac = add_child_Inr[OF a]
  have pl: "last (stack st) < length (heap st)" "\<not> is_text (heap st ! last (stack st))"
    using v ne by (auto simp add: stack_valid_def)
  have p: "\<not> is_text (?h1 ! last (stack st))" using pl by (simp add: nth_append)
  have t: "\<forall>n \<in> set ?h1. is_text n \<longrightarrow> children n = []"
    using v by (auto simp add: stack_valid_def)
  have texts: "\<forall>n \<in> set h2. is_text n \<longrightarrow> children n = []"
    by (rule add_child_texts[OF a p t])
  have "a < length h2 \<and> \<not> is_text (h2 ! a)" if m: "a \<in> set (stack st)" for a
  proof -
    from m have al: "a < length (heap st)" "\<not> is_text (heap st ! a)"
      using v by (auto simp add: stack_valid_def)
    show ?thesis
    proof (cases "a = last (stack st)")
      case True
      then show ?thesis using ac(2,4) p al by simp
    next
      case False
      then have "h2 ! a = ?h1 ! a" using ac(3) al(1) by simp
      then show ?thesis using al ac(2) by (simp add: nth_append)
    qed
  qed
  then show ?thesis using texts by (simp add: stack_valid_def st')
qed

lemma build_run_stack_valid:
  assumes "build_run toks = Some (Inr (i, st))"
  shows "stack_valid st"
proof -
  have "stack_valid st \<and> length toks \<le> i"
  proof (rule build_loop_invariant[where I = "\<lambda>k s. stack_valid s"])
    show "build_loop toks 0 (snd build_init) = Some (Inr (i, st))"
      using assms by (simp add: build_run_def)
    show "stack_valid (snd build_init)"
      by (simp add: build_init_def create_node_def stack_valid_def)
  qed (rule build_body_stack_valid)
  then show ?thesis by simp
qed

subsection \<open>Counting nodes\<close>

lemma build_body_heap_length:
  assumes "build_body tok st = Inr st'"
  shows "length (heap st') \<le> length (heap st) + 1"
  using assms
  by (cases "type tok")
    (auto simp add: build_body_def create_node_def stack_top_def stack_push_def
      split: if_splits sum.splits dest!: add_child_Inr(2))

lemma build_run_counts:
  assumes "build_run toks = Some (Inr (i, st))"
  shows "i = length toks" and "length (heap st) \<le> length toks + 1"
proof -
  let ?I = "\<lambda>k s. k \<le> length toks \<and> length (heap s) \<le> k + 1"
  have "?I i st \<and> length toks \<le> i"
  proof (rule build_loop_invariant[where I = ?I])
    show "build_loop toks 0 (snd build_init) = Some (Inr (i, st))"
      using assms by (simp add: build_run_def)
    show "?I 0 (snd build_init)" by (simp add: build_init_def create_node_def)
  next
    fix k s s'
    assume "?I k s" and "k < length toks" and "build_body (toks ! k) s = Inr s'"
    then show "?I (k + 1) s'" using build_body_heap_length[of "toks ! k" s s'] by simp
  qed
  then show "i = length toks" and "length (heap st) \<le> length toks + 1" by simp_all
qed

subsection \<open>End tags\<close>

lemma build_body_end_tag_payload:
  assumes "type t = type t'" and "type t \<noteq> EndTag \<longrightarrow> data t = data t'"
  shows "build_body t st = build_body t' st"
  using assms by (cases "type t") (simp_all add: build_body_def)

lemma build_loop_end_tag_payload:
  assumes len: "length toks = length toks'"
    and eq: "\<forall>k < length toks. type (toks ! k) = type (toks' ! k) \<and>
               (type (toks ! k) \<noteq> EndTag \<longrightarrow> data (toks ! k) = data (toks' ! k))"
  shows "build_loop toks i st = build_loop toks' i st"
proof (induction i st rule: build_loop_induct[of toks])
  case (step i st)
  show ?case
  proof (cases "i < length toks")
    case True
    then have b: "build_body (toks ! i) st = build_body (toks' ! i) st"
      using eq by (intro build_body_end_tag_payload) auto
    show ?thesis
    proof (cases "build_body (toks ! i) st")
      case (Inl e)
      then show ?thesis using True b len by (subst (1 2) build_loop.simps) simp
    next
      case (Inr st')
      then show ?thesis
        using True b len step[OF True Inr] by (subst (1 2) build_loop.simps) simp
    qed
  next
    case False
    then show ?thesis using len by (subst (1 2) build_loop.simps) simp
  qed
qed


subsection \<open>Errors that do not occur in the tree builder\<close>

lemma add_child_heap_valid:
  assumes p: "parent < length h"
    and n: "\<forall>n \<in> set h. 0 < child_capacity n \<and> int (length (children n)) \<le> child_capacity n"
  shows "\<exists>h'. add_child parent child h = Inr h' \<and> length h' = length h \<and>
           (\<forall>n \<in> set h'. 0 < child_capacity n \<and> int (length (children n)) \<le> child_capacity n)"
proof -
  have hp: "0 < child_capacity (h ! parent) \<and>
            int (length (children (h ! parent))) \<le> child_capacity (h ! parent)"
    using p n by simp
  let ?cap = "if int (length (children (h ! parent))) \<ge> child_capacity (h ! parent)
              then child_capacity (h ! parent) * 2 else child_capacity (h ! parent)"
  let ?p' = "(h ! parent)\<lparr>children := children (h ! parent) @ [child], child_capacity := ?cap\<rparr>"
  have lt: "int (length (children (h ! parent))) < ?cap" using hp by auto
  then have eq: "add_child parent child h = Inr (h[parent := ?p'])"
    using p by (simp add: add_child_def Let_def)
  have "0 < child_capacity ?p' \<and> int (length (children ?p')) \<le> child_capacity ?p'"
    using hp lt by auto
  moreover have "set (h[parent := ?p']) \<subseteq> insert ?p' (set h)"
    by (rule set_update_subset_insert)
  ultimately have "\<forall>n \<in> set (h[parent := ?p']).
      0 < child_capacity n \<and> int (length (children n)) \<le> child_capacity n"
    using n by blast
  then show ?thesis using eq by simp
qed

lemma build_body_heap_valid:
  assumes v: "heap_valid st"
  shows "build_body tok st = Inl StackOutOfBounds \<or>
         (\<exists>st'. build_body tok st = Inr st' \<and> heap_valid st')"
proof (cases "type tok")
  case EndTag
  have "a \<in> set (butlast (stack st)) \<Longrightarrow> a \<in> set (stack st)" for a
    by (rule in_set_butlastD)
  then show ?thesis using v EndTag by (fastforce simp add: build_body_def heap_valid_def)
next
  case StartTag
  show ?thesis
  proof (cases "stack st = []")
    case True
    then show ?thesis using StartTag
      by (simp add: build_body_def create_node_def stack_top_def)
  next
    case False
    let ?node = "length (heap st)"
    let ?h1 = "heap st @ [\<lparr>name = data tok, children = [], child_capacity = 4, is_text = False\<rparr>]"
    have "last (stack st) \<in> set (stack st)" using False by simp
    then have p: "last (stack st) < length ?h1" using v by (auto simp add: heap_valid_def)
    have n: "\<forall>n \<in> set ?h1. 0 < child_capacity n \<and> int (length (children n)) \<le> child_capacity n"
      using v by (auto simp add: heap_valid_def)
    from add_child_heap_valid[OF p n, of ?node] obtain h2 where
      a: "add_child (last (stack st)) ?node ?h1 = Inr h2" and l: "length h2 = length ?h1"
      and n2: "\<forall>n \<in> set h2. 0 < child_capacity n \<and> int (length (children n)) \<le> child_capacity n"
      by blast
    have "\<forall>a \<in> set (stack st @ [?node]). a < length h2"
      using v l by (auto simp add: heap_valid_def)
    then show ?thesis using StartTag False a n2
      by (auto simp add: build_body_def create_node_def stack_top_def stack_push_def
          heap_valid_def)
  qed
next
  case Text
  show ?thesis
  proof (cases "stack st = []")
    case True
    then show ?thesis using Text
      by (simp add: build_body_def create_node_def stack_top_def)
  next
    case False
    let ?node = "length (heap st)"
    let ?h1 = "heap st @ [\<lparr>name = data tok, children = [], child_capacity = 4, is_text = True\<rparr>]"
    have "last (stack st) \<in> set (stack st)" using False by simp
    then have p: "last (stack st) < length ?h1" using v by (auto simp add: heap_valid_def)
    have n: "\<forall>n \<in> set ?h1. 0 < child_capacity n \<and> int (length (children n)) \<le> child_capacity n"
      using v by (auto simp add: heap_valid_def)
    from add_child_heap_valid[OF p n, of ?node] obtain h2 where
      a: "add_child (last (stack st)) ?node ?h1 = Inr h2" and l: "length h2 = length ?h1"
      and n2: "\<forall>n \<in> set h2. 0 < child_capacity n \<and> int (length (children n)) \<le> child_capacity n"
      by blast
    have "\<forall>a \<in> set (stack st). a < length h2"
      using v l by (auto simp add: heap_valid_def)
    then show ?thesis using Text False a n2
      by (auto simp add: build_body_def create_node_def stack_top_def heap_valid_def)
  qed
qed

lemma build_loop_heap_valid:
  assumes "heap_valid st"
  shows "build_loop toks i st = Some (Inl StackOutOfBounds) \<or>
         (\<exists>j fin. build_loop toks i st = Some (Inr (j, fin)))"
  using assms
proof (induction i st rule: build_loop_induct[of toks])
  case (step i st)
  show ?case
  proof (cases "i < length toks")
    case True
    from build_body_heap_valid[OF step.prems, of "toks ! i"] show ?thesis
    proof
      assume "build_body (toks ! i) st = Inl StackOutOfBounds"
      then show ?thesis using True by (subst (1 2) build_loop.simps) simp
    next
      assume "\<exists>st'. build_body (toks ! i) st = Inr st' \<and> heap_valid st'"
      then obtain st' where b: "build_body (toks ! i) st = Inr st'" and v: "heap_valid st'"
        by blast
      from step.IH[OF True b v] True b show ?thesis
        by (subst (1 2) build_loop.simps) simp
    qed
  next
    case False
    then show ?thesis by (subst (1 2) build_loop.simps) simp
  qed
qed

text \<open>
  The only access outside an array that \<open>build_dom\<close> can make is one outside the stack:
  the child arrays are never overrun and every pointer followed is valid.
\<close>

lemma build_dom_errors:
  "build_dom toks = Some (Inl StackOutOfBounds) \<or> (\<exists>root h. build_dom toks = Some (Inr (root, h)))"
proof -
  have "heap_valid (snd build_init)"
    by (simp add: heap_valid_def build_init_def create_node_def)
  from build_loop_heap_valid[OF this, of toks 0] show ?thesis
    by (auto simp add: build_dom_def build_run_def)
qed

section \<open>The running time of build_dom\<close>

lemma slack_update:
  assumes "i < length h"
  shows "slack (h[i := x]) = slack h
           - (2 * int (length (children (h ! i))) - child_capacity (h ! i) + 4)
           + (2 * int (length (children x)) - child_capacity x + 4)"
proof -
  let ?f = "\<lambda>n. 2 * int (length (children n)) - child_capacity n + 4"
  have h: "h = take i h @ h ! i # drop (Suc i) h" using assms by (rule id_take_nth_drop)
  have u: "h[i := x] = take i h @ x # drop (Suc i) h" using assms by (rule upd_conv_take_nth_drop)
  have "slack h = sum_list (map ?f (take i h)) + ?f (h ! i) + sum_list (map ?f (drop (Suc i) h))"
    unfolding slack_def by (subst h) simp
  moreover have "slack (h[i := x])
      = sum_list (map ?f (take i h)) + ?f x + sum_list (map ?f (drop (Suc i) h))"
    unfolding slack_def u by simp
  ultimately show ?thesis by simp
qed

lemma slack_nonneg: "caps_tight h \<Longrightarrow> 0 \<le> slack h"
  unfolding slack_def caps_tight_def by (rule sum_list_nonneg) auto

lemma add_child_amortised:
  assumes a: "add_child parent child h = Inr h'"
    and p: "0 < child_capacity (h ! parent)"
      "int (length (children (h ! parent))) \<le> child_capacity (h ! parent)"
    and t: "caps_tight h"
  shows "int (add_child_cost parent h) + slack h' = slack h + 3" and "caps_tight h'"
proof -
  let ?p = "h ! parent"
  let ?cap = "if int (length (children ?p)) \<ge> child_capacity ?p
              then child_capacity ?p * 2 else child_capacity ?p"
  let ?p' = "?p\<lparr>children := children ?p @ [child], child_capacity := ?cap\<rparr>"
  from a have lt: "parent < length h" and h': "h' = h[parent := ?p']"
    by (auto simp add: add_child_def Let_def split: if_splits)
  show "int (add_child_cost parent h) + slack h' = slack h + 3"
    unfolding h' slack_update[OF lt] add_child_cost_def using p by auto
  have tp: "child_capacity ?p \<le> 2 * int (length (children ?p)) + 4"
    using t lt by (auto simp add: caps_tight_def)
  have "child_capacity ?p' \<le> 2 * int (length (children ?p')) + 4" using p tp by auto
  moreover have "set h' \<subseteq> insert ?p' (set h)" unfolding h' by (rule set_update_subset_insert)
  ultimately show "caps_tight h'" using t unfolding caps_tight_def by blast
qed


lemma slack_create_node:
  shows "slack (h @ [\<lparr>name = nm, children = [], child_capacity = 4, is_text = txt\<rparr>]) = slack h"
  and "caps_tight h \<Longrightarrow>
       caps_tight (h @ [\<lparr>name = nm, children = [], child_capacity = 4, is_text = txt\<rparr>])"
  by (simp_all add: slack_def caps_tight_def)

lemma build_body_amortised:
  assumes v: "heap_valid st" and t: "caps_tight (heap st)"
    and b: "build_body tok st = Inr st'"
  shows "heap_valid st'" and "caps_tight (heap st')"
    and "int (build_body_cost tok st) + slack (heap st')
         \<le> slack (heap st) + 7 + int (if type tok = EndTag then 0 else length (data tok))"
proof -
  from build_body_heap_valid[OF v, of tok] b show "heap_valid st'" by auto
  have "caps_tight (heap st') \<and>
        int (build_body_cost tok st) + slack (heap st')
          \<le> slack (heap st) + 7 + int (if type tok = EndTag then 0 else length (data tok))"
  proof (cases "type tok")
    case EndTag
    then have "heap st' = heap st" using b by (auto simp add: build_body_def split: if_splits)
    then show ?thesis using t EndTag by (simp add: build_body_cost_def)
  next
    case StartTag
    let ?node = "length (heap st)"
    let ?h1 = "heap st @ [\<lparr>name = data tok, children = [], child_capacity = 4, is_text = False\<rparr>]"
    from b StartTag obtain h2 where ne: "stack st \<noteq> []"
      and a: "add_child (last (stack st)) ?node ?h1 = Inr h2"
      and s: "stack_push ?node (st\<lparr>heap := h2\<rparr>) = Inr st'"
      by (auto simp add: build_body_def create_node_def stack_top_def
          split: if_splits sum.splits)
    from s have hs: "heap st' = h2" by (auto simp add: stack_push_def split: if_splits)
    have "last (stack st) \<in> set (stack st)" using ne by simp
    then have pl: "last (stack st) < length (heap st)" using v by (simp add: heap_valid_def)
    then have "heap st ! last (stack st) \<in> set (heap st)" by simp
    then have p: "0 < child_capacity (?h1 ! last (stack st))"
      "int (length (children (?h1 ! last (stack st)))) \<le> child_capacity (?h1 ! last (stack st))"
      using v pl by (simp_all add: heap_valid_def nth_append)
    note am = add_child_amortised[OF a p slack_create_node(2)[OF t]]
    have "build_body_cost tok st
          = length (data tok) + 4 + add_child_cost (last (stack st)) ?h1"
      using StartTag by (simp add: build_body_cost_def create_node_def create_node_cost_def)
    then show ?thesis using am StartTag hs by (simp add: slack_create_node(1))
  next
    case Text
    let ?node = "length (heap st)"
    let ?h1 = "heap st @ [\<lparr>name = data tok, children = [], child_capacity = 4, is_text = True\<rparr>]"
    from b Text obtain h2 where ne: "stack st \<noteq> []"
      and a: "add_child (last (stack st)) ?node ?h1 = Inr h2"
      and hs: "st' = st\<lparr>heap := h2\<rparr>"
      by (auto simp add: build_body_def create_node_def stack_top_def
          split: if_splits sum.splits)
    have "last (stack st) \<in> set (stack st)" using ne by simp
    then have pl: "last (stack st) < length (heap st)" using v by (simp add: heap_valid_def)
    then have "heap st ! last (stack st) \<in> set (heap st)" by simp
    then have p: "0 < child_capacity (?h1 ! last (stack st))"
      "int (length (children (?h1 ! last (stack st)))) \<le> child_capacity (?h1 ! last (stack st))"
      using v pl by (simp_all add: heap_valid_def nth_append)
    note am = add_child_amortised[OF a p slack_create_node(2)[OF t]]
    have "build_body_cost tok st
          = length (data tok) + 3 + add_child_cost (last (stack st)) ?h1"
      using Text by (simp add: build_body_cost_def create_node_def create_node_cost_def)
    then show ?thesis using am Text hs by (simp add: slack_create_node(1))
  qed
  then show "caps_tight (heap st')"
    and "int (build_body_cost tok st) + slack (heap st')
         \<le> slack (heap st) + 7 + int (if type tok = EndTag then 0 else length (data tok))"
    by simp_all
qed

lemma copied_chars_take_Suc:
  assumes "i < length toks"
  shows "copied_chars (take (Suc i) toks)
         = copied_chars (take i toks)
           + (if type (toks ! i) = EndTag then 0 else length (data (toks ! i)))"
  using assms by (simp add: copied_chars_def take_Suc_conv_app_nth)

lemma build_loop_cost_bound:
  assumes "heap_valid st" and "caps_tight (heap st)" and "i \<le> length toks"
    and "int steps + slack (heap st) \<le> 7 * int i + int (copied_chars (take i toks)) + 11"
    and "build_loop toks i st = Some (Inr (j, fin))"
  shows "\<exists>c. build_loop_cost toks i st steps = Some c \<and>
           int c \<le> 7 * int (length toks) + int (copied_chars toks) + 11"
  using assms
proof (induction i st arbitrary: steps rule: build_loop_induct[of toks])
  case (step i st)
  show ?case
  proof (cases "i < length toks")
    case True
    with step.prems(5) obtain st' where b: "build_body (toks ! i) st = Inr st'"
      and l: "build_loop toks (i + 1) st' = Some (Inr (j, fin))"
      by (subst (asm) build_loop.simps) (auto split: sum.splits)
    note am = build_body_amortised[OF step.prems(1,2) b]
    have "int (steps + build_body_cost (toks ! i) st) + slack (heap st')
          \<le> 7 * int (i + 1) + int (copied_chars (take (i + 1) toks)) + 11"
      using am(3) step.prems(4) copied_chars_take_Suc[OF True] by simp
    from step.IH[OF True b am(1,2) _ this l] True
    obtain c where "build_loop_cost toks (i + 1) st' (steps + build_body_cost (toks ! i) st) = Some c"
      and "int c \<le> 7 * int (length toks) + int (copied_chars toks) + 11" by auto
    then show ?thesis using True b by (subst build_loop_cost.simps) simp
  next
    case False
    then have "i = length toks" using step.prems(3) by simp
    then have "int steps \<le> 7 * int (length toks) + int (copied_chars toks) + 11"
      using step.prems(4) slack_nonneg[OF step.prems(2)] by simp
    then show ?thesis using False by (subst build_loop_cost.simps) simp
  qed
qed

lemma build_cost_bound:
  assumes "build_run toks = Some (Inr (i, st))"
  shows "\<exists>c. build_cost toks = Some c \<and> c \<le> 7 * length toks + copied_chars toks + 11"
proof -
  have v: "heap_valid (snd build_init)"
    by (simp add: heap_valid_def build_init_def create_node_def)
  have t: "caps_tight (heap (snd build_init))"
    by (simp add: caps_tight_def build_init_def create_node_def)
  have s: "int (create_node_cost ''document'' + 1) + slack (heap (snd build_init))
           \<le> 7 * int 0 + int (copied_chars (take 0 toks)) + 11"
    by (simp add: slack_def build_init_def create_node_def create_node_cost_def copied_chars_def)
  from build_loop_cost_bound[OF v t _ s] assms
  obtain c where "build_cost toks = Some c"
    and "int c \<le> 7 * int (length toks) + int (copied_chars toks) + 11"
    by (auto simp add: build_cost_def build_run_def)
  then show ?thesis by (intro exI[of _ c]) linarith
qed

lemma build_cost_one_text:
  "build_cost [\<lparr>type = Text, data = d\<rparr>] = Some (length d + 15)"
  by (simp add: build_cost_def build_loop_cost.simps build_body_cost_def create_node_cost_def
      add_child_cost_def build_defs)


lemma flush_text_buffer:
  assumes "flush_text st = Inr st'"
  shows "length (buffer st) < 1024"
  using assms by (auto simp add: flush_text_def split: if_splits)

lemma tokenize_run_payloads:
  assumes "tokenize_run html cap = Some (Inr fin)"
  shows "\<forall>t \<in> set (tokens fin). length (data t) < 1024"
proof -
  let ?I = "\<lambda>s. (\<forall>t \<in> set (tokens s). length (data t) < 1024)"
  from assms obtain s where l: "tokenize_loop html (tokenize_init cap) = Some (Inr s)"
    and f: "flush_remaining s = Inr fin" by (rule tokenize_run_Inr)
  have "\<exists>s0. ?I s0 \<and> length html \<le> pos s0 \<and> s = s0\<lparr>strlen_calls := strlen_calls s0 + 1\<rparr>"
  proof (rule tokenize_loop_invariant[OF l, where I = ?I])
    show "?I (tokenize_init cap)" by (simp add: tokenize_init_def)
  next
    fix s s'
    assume i: "?I s" and "pos s < length html"
      and b: "tokenize_body html (s\<lparr>strlen_calls := strlen_calls s + 1\<rparr>) = Some (Inr s')"
    let ?s1 = "s\<lparr>strlen_calls := strlen_calls s + 1\<rparr>"
    show "?I s'"
    proof (cases "html ! pos s = CHR ''<''")
      case True
      then have c: "html ! pos ?s1 = CHR ''<''" by simp
      from c b obtain s2 where "flush_text ?s1 = Inr s2"
        by (auto simp add: tokenize_body_def Let_def split: sum.splits)
      then have "length (buffer s) < 1024" using flush_text_buffer by fastforce
      with tokenize_body_tag(4,5)[OF c b] i show ?thesis by auto
    next
      case False
      then have "html ! pos ?s1 \<noteq> CHR ''<''" by simp
      from tokenize_body_text(1)[OF this b] i show ?thesis by simp
    qed
  qed
  then have "?I s" by auto
  moreover from f have "buffer s = [] \<or> length (buffer s) < 1024"
    by (auto simp add: flush_remaining_def split: if_splits)
  ultimately show ?thesis using flush_remaining_Inr(3)[OF f] by auto
qed

lemma copied_chars_bounded:
  assumes "\<forall>t \<in> set toks. length (data t) < 1024"
  shows "copied_chars toks \<le> 1023 * length toks"
  using assms by (induction toks) (auto simp add: copied_chars_def)

section \<open>The sample input of main, and the limits of the arrays\<close>

text \<open>The run of \<open>main\<close> on its sample input (lines 166-183): the tokens and the tree.\<close>

lemma main_sample_tokens:
  "tokenize ''<html><body><div>Hello <b>world</b></div></body></html>'' 16 =
     Some (Inr ([\<lparr>type = StartTag, data = ''html''\<rparr>, \<lparr>type = StartTag, data = ''body''\<rparr>,
                 \<lparr>type = StartTag, data = ''div''\<rparr>, \<lparr>type = Text, data = ''Hello ''\<rparr>,
                 \<lparr>type = StartTag, data = ''b''\<rparr>, \<lparr>type = Text, data = ''world''\<rparr>,
                 \<lparr>type = EndTag, data = ''b''\<rparr>, \<lparr>type = EndTag, data = ''div''\<rparr>,
                 \<lparr>type = EndTag, data = ''body''\<rparr>, \<lparr>type = EndTag, data = ''html''\<rparr>], 16))"
  by (simp add: tokenize_defs tokenize_loop.simps extract_tag_name.simps)

lemma main_sample_tree:
  "tokenize_then_build ''<html><body><div>Hello <b>world</b></div></body></html>'' 16 =
     Some (Inr (0,
       [\<lparr>name = ''document'', children = [1], child_capacity = 4, is_text = False\<rparr>,
        \<lparr>name = ''html'', children = [2], child_capacity = 4, is_text = False\<rparr>,
        \<lparr>name = ''body'', children = [3], child_capacity = 4, is_text = False\<rparr>,
        \<lparr>name = ''div'', children = [4, 5], child_capacity = 4, is_text = False\<rparr>,
        \<lparr>name = ''Hello '', children = [], child_capacity = 4, is_text = True\<rparr>,
        \<lparr>name = ''b'', children = [6], child_capacity = 4, is_text = False\<rparr>,
        \<lparr>name = ''world'', children = [], child_capacity = 4, is_text = True\<rparr>]))"
  by (simp add: tokenize_then_build_def main_sample_tokens build_defs build_loop.simps)

subsection \<open>The limits of the fixed-size arrays\<close>

text \<open>A tag name of 256 characters or more overruns \<open>tag_name\<close>.\<close>

lemma tokenize_tag_name_limit:
  assumes "256 \<le> k"
  shows "tokenize (CHR ''<'' # replicate k CHR ''a'') cap = Some (Inl TagNameOverflow)"
proof -
  let ?h = "CHR ''<'' # replicate k CHR ''a''"
  let ?s1 = "(tokenize_init cap)\<lparr>strlen_calls := strlen_calls (tokenize_init cap) + 1\<rparr>"
  have w: "takeWhile (\<lambda>c. c \<noteq> CHR ''>'') (replicate k CHR ''a'') = replicate k CHR ''a''"
    by (simp add: takeWhile_eq_all_conv)
  have "?h ! 1 = CHR ''a''" using assms by simp
  then have "read_tag ?h ?s1 = Some (Inl TagNameOverflow)"
    using assms by (simp add: read_tag_eq tokenize_init_def w)
  then have "tokenize_body ?h ?s1 = Some (Inl TagNameOverflow)"
    by (simp add: tokenize_body_def flush_text_def tokenize_init_def)
  then have "tokenize_loop ?h (tokenize_init cap) = Some (Inl TagNameOverflow)"
    by (subst tokenize_loop_unfold) (simp add: tokenize_init_def)
  then show ?thesis by (simp add: tokenize_def tokenize_run_def)
qed

text \<open>A text run of 1024 characters or more overruns \<open>buffer\<close>.\<close>

lemma tokenize_loop_text_limit:
  assumes "1024 \<le> k" and "pos st \<le> k" and "buffer st = replicate (pos st) CHR ''a''"
  shows "tokenize_loop (replicate k CHR ''a'') st = Some (Inl TextBufferOverflow) \<or>
         (\<exists>fin. tokenize_loop (replicate k CHR ''a'') st = Some (Inr fin) \<and>
                 buffer fin = replicate k CHR ''a'')"
  using assms(2,3)
proof (induction st rule: tokenize_loop_induct[of "replicate k CHR ''a''"])
  case (step st)
  let ?h = "replicate k CHR ''a''"
  let ?s1 = "st\<lparr>strlen_calls := strlen_calls st + 1\<rparr>"
  show ?case
  proof (cases "pos st < k")
    case True
    then have c: "?h ! pos st = CHR ''a''" by simp
    show ?thesis
    proof (cases "length (buffer st) < 1024")
      case lt: True
      let ?s2 = "?s1\<lparr>buffer := buffer ?s1 @ [CHR ''a''], pos := pos ?s1 + 1\<rparr>"
      have b: "tokenize_body ?h ?s1 = Some (Inr ?s2)"
        using c lt by (simp add: tokenize_body_def Let_def)
      have "buffer ?s2 = replicate (pos ?s2) CHR ''a''"
        using step.prems(2) by (simp add: replicate_append_same)
      from step.IH[OF _ b _ this] True
      have "tokenize_loop ?h ?s2 = Some (Inl TextBufferOverflow) \<or>
         (\<exists>fin. tokenize_loop ?h ?s2 = Some (Inr fin) \<and> buffer fin = ?h)"
        by simp
      then show ?thesis using True b by (subst (1 2) tokenize_loop_unfold) simp
    next
      case False
      then have "tokenize_body ?h ?s1 = Some (Inl TextBufferOverflow)"
        using c by (simp add: tokenize_body_def Let_def)
      then show ?thesis using True by (subst (1 2) tokenize_loop_unfold) simp
    qed
  next
    case False
    then have "pos st = k" using step.prems(1) by simp
    then show ?thesis using step.prems(2) by (subst (1 2) tokenize_loop_unfold) simp
  qed
qed

lemma tokenize_text_limit:
  assumes "1024 \<le> k"
  shows "tokenize (replicate k CHR ''a'') cap = Some (Inl TextBufferOverflow)"
proof -
  from tokenize_loop_text_limit[OF assms, of "tokenize_init cap"]
  have "tokenize_loop (replicate k CHR ''a'') (tokenize_init cap) = Some (Inl TextBufferOverflow) \<or>
         (\<exists>fin. tokenize_loop (replicate k CHR ''a'') (tokenize_init cap) = Some (Inr fin) \<and>
                 buffer fin = replicate k CHR ''a'')"
    by (simp add: tokenize_init_def)
  then show ?thesis
    using assms by (auto simp add: tokenize_def tokenize_run_def flush_remaining_def)
qed

text \<open>The 128th element opened inside the root overruns \<open>stack\<close>.\<close>

lemma build_loop_stack_limit:
  assumes "heap_valid st" and "length (stack st) = i + 1" and "i \<le> 127"
  shows "build_loop (replicate 128 \<lparr>type = StartTag, data = d\<rparr>) i st
         = Some (Inl StackOutOfBounds)"
  using assms
proof (induction i st rule: build_loop_induct[of "replicate 128 \<lparr>type = StartTag, data = d\<rparr>"])
  case (step i st)
  let ?toks = "replicate 128 \<lparr>type = StartTag, data = d\<rparr>"
  have True: "i < 128" using step.prems(3) by simp
  then have t: "?toks ! i = \<lparr>type = StartTag, data = d\<rparr>" by simp
  from build_body_heap_valid[OF step.prems(1), of "?toks ! i"] show ?case
  proof
    assume "build_body (?toks ! i) st = Inl StackOutOfBounds"
    then show ?thesis using True by (subst build_loop.simps) simp
  next
    assume "\<exists>st'. build_body (?toks ! i) st = Inr st' \<and> heap_valid st'"
    then obtain st' where b: "build_body (?toks ! i) st = Inr st'" and v: "heap_valid st'"
      by blast
    from b have l: "length (stack st') = length (stack st) + 1"
      unfolding t
      by (auto simp add: build_body_def create_node_def stack_top_def stack_push_def
          split: sum.splits if_splits)
    from b have "length (stack st) < 128"
      unfolding t
      by (auto simp add: build_body_def create_node_def stack_top_def stack_push_def
          split: sum.splits if_splits)
    then have "i + 1 \<le> 127" using step.prems(2) by simp
    from step.IH[OF _ b v _ this] True l step.prems(2) b show ?thesis
      by (subst build_loop.simps) simp
  qed
qed

lemma build_dom_stack_limit:
  "build_dom (replicate 128 \<lparr>type = StartTag, data = d\<rparr>) = Some (Inl StackOutOfBounds)"
proof -
  have "heap_valid (snd build_init)"
    by (simp add: heap_valid_def build_init_def create_node_def)
  from build_loop_stack_limit[OF this, of 0 d] show ?thesis
    by (simp add: build_dom_def build_run_def build_init_def create_node_def)
qed

section \<open>The claims about the tokenizer\<close>

lemma tokenize_hello_16:
  "tokenize ''hello<b>world</b>'' 16 =
     Some (Inr ([\<lparr>type = Text, data = ''hello''\<rparr>, \<lparr>type = StartTag, data = ''b''\<rparr>,
                 \<lparr>type = Text, data = ''world''\<rparr>, \<lparr>type = EndTag, data = ''b''\<rparr>], 16))"
  by (simp add: tokenize_defs tokenize_loop.simps extract_tag_name.simps)

lemma tokenize_body_hello_tag:
  "tokenize_body ''hello<b>world</b>''
     \<lparr>pos = 5, buffer = ''hello'', tokens = [], token_capacity = 16, strlen_calls = 6\<rparr> =
     Some (Inr \<lparr>pos = 8, buffer = [],
                tokens = [\<lparr>type = Text, data = ''hello''\<rparr>, \<lparr>type = StartTag, data = ''b''\<rparr>],
                token_capacity = 16, strlen_calls = 9\<rparr>)"
  by (simp add: tokenize_defs extract_tag_name.simps)

text \<open>
  Claim C3. For the input \<open>hello<b>world</b>\<close>, called with any positive capacity,
  \<open>tokenize\<close> returns exactly the four tokens Text \<open>hello\<close>, StartTag \<open>b\<close>, Text \<open>world\<close>,
  EndTag \<open>b\<close>. In general, an iteration of the main loop that meets a \<open><\<close> with text
  pending appends the pending text as a Text token and, after it, the token of the tag,
  and leaves the buffer empty: the text is flushed before the tag is read, and what
  follows the tag starts a new text run.
\<close>

theorem tokenize_text_flushing:
  "(0 < cap \<longrightarrow>
      (\<exists>cap'. tokenize ''hello<b>world</b>'' cap =
         Some (Inr ([\<lparr>type = Text, data = ''hello''\<rparr>, \<lparr>type = StartTag, data = ''b''\<rparr>,
                     \<lparr>type = Text, data = ''world''\<rparr>, \<lparr>type = EndTag, data = ''b''\<rparr>],
                    cap')))) \<and>
   (html ! pos st = CHR ''<'' \<and> buffer st \<noteq> [] \<and> tokenize_body html st = Some (Inr st') \<longrightarrow>
      buffer st' = [] \<and>
      (\<exists>ty d. ty \<noteq> Text \<and>
         tokens st' = tokens st @ [\<lparr>type = Text, data = buffer st\<rparr>, \<lparr>type = ty, data = d\<rparr>]))"
proof (intro conjI impI)
  assume "0 < cap"
  then show "\<exists>cap'. tokenize ''hello<b>world</b>'' cap =
         Some (Inr ([\<lparr>type = Text, data = ''hello''\<rparr>, \<lparr>type = StartTag, data = ''b''\<rparr>,
                     \<lparr>type = Text, data = ''world''\<rparr>, \<lparr>type = EndTag, data = ''b''\<rparr>],
                    cap'))"
    by (rule tokenize_any_capacity[OF tokenize_hello_16])
next
  assume a: "html ! pos st = CHR ''<'' \<and> buffer st \<noteq> [] \<and>
             tokenize_body html st = Some (Inr st')"
  then have c: "html ! pos st = CHR ''<''" and b: "tokenize_body html st = Some (Inr st')"
    by simp_all
  show "buffer st' = []" by (rule tokenize_body_tag(2)[OF c b])
  show "\<exists>ty d. ty \<noteq> Text \<and>
         tokens st' = tokens st @ [\<lparr>type = Text, data = buffer st\<rparr>, \<lparr>type = ty, data = d\<rparr>]"
    using tokenize_body_tag(4)[OF c b] a by auto
qed

theorem tokenize_text_flushing_witness:
  "(0::int) < 16 \<and>
   (\<exists>cap'. tokenize ''hello<b>world</b>'' 16 =
     Some (Inr ([\<lparr>type = Text, data = ''hello''\<rparr>, \<lparr>type = StartTag, data = ''b''\<rparr>,
                 \<lparr>type = Text, data = ''world''\<rparr>, \<lparr>type = EndTag, data = ''b''\<rparr>], cap'))) \<and>
   ''hello<b>world</b>'' ! 5 = CHR ''<'' \<and>
   tokenize_body ''hello<b>world</b>''
     \<lparr>pos = 5, buffer = ''hello'', tokens = [], token_capacity = 16, strlen_calls = 6\<rparr> =
     Some (Inr \<lparr>pos = 8, buffer = [],
                tokens = [\<lparr>type = Text, data = ''hello''\<rparr>, \<lparr>type = StartTag, data = ''b''\<rparr>],
                token_capacity = 16, strlen_calls = 9\<rparr>)"
proof -
  have h: "(0::int) < 16" by simp
  note t = tokenize_text_flushing[where cap = 16 and html = "''hello<b>world</b>''"
      and st = "\<lparr>pos = 5, buffer = ''hello'', tokens = [], token_capacity = 16,
                 strlen_calls = 6\<rparr>"
      and st' = "\<lparr>pos = 8, buffer = [],
                tokens = [\<lparr>type = Text, data = ''hello''\<rparr>, \<lparr>type = StartTag, data = ''b''\<rparr>],
                token_capacity = 16, strlen_calls = 9\<rparr>"]
  have "\<exists>cap'. tokenize ''hello<b>world</b>'' 16 =
     Some (Inr ([\<lparr>type = Text, data = ''hello''\<rparr>, \<lparr>type = StartTag, data = ''b''\<rparr>,
                 \<lparr>type = Text, data = ''world''\<rparr>, \<lparr>type = EndTag, data = ''b''\<rparr>], cap'))"
    using t h by blast
  moreover have "''hello<b>world</b>'' ! 5 = CHR ''<''" by simp
  ultimately show ?thesis using h tokenize_body_hello_tag by blast
qed

lemma tokenize_adjacent_tags_16:
  "tokenize ''<a><b></b></a>'' 16 =
     Some (Inr ([\<lparr>type = StartTag, data = ''a''\<rparr>, \<lparr>type = StartTag, data = ''b''\<rparr>,
                 \<lparr>type = EndTag, data = ''b''\<rparr>, \<lparr>type = EndTag, data = ''a''\<rparr>], 16))"
  by (simp add: tokenize_defs tokenize_loop.simps extract_tag_name.simps)

lemma tokenize_x_b_16:
  "tokenize ''x<b>'' 16 =
     Some (Inr ([\<lparr>type = Text, data = ''x''\<rparr>, \<lparr>type = StartTag, data = ''b''\<rparr>], 16))"
  by (simp add: tokenize_defs tokenize_loop.simps extract_tag_name.simps)

text \<open>
  Claim C4. Whenever \<open>tokenize\<close> returns tokens, no Text token among them has the empty
  string as its payload; and for the input \<open><a><b></b></a>\<close>, called with any positive
  capacity, it returns the four tag tokens and no Text token at all.
\<close>

theorem tokenize_no_empty_text:
  "(tokenize html cap = Some (Inr (toks, cap')) \<longrightarrow>
      (\<forall>t \<in> set toks. type t = Text \<longrightarrow> data t \<noteq> [])) \<and>
   (0 < cap \<longrightarrow>
      (\<exists>ts c. tokenize ''<a><b></b></a>'' cap = Some (Inr (ts, c)) \<and>
         ts = [\<lparr>type = StartTag, data = ''a''\<rparr>, \<lparr>type = StartTag, data = ''b''\<rparr>,
               \<lparr>type = EndTag, data = ''b''\<rparr>, \<lparr>type = EndTag, data = ''a''\<rparr>] \<and>
         (\<forall>t \<in> set ts. type t \<noteq> Text)))"
proof (intro conjI impI)
  assume "tokenize html cap = Some (Inr (toks, cap'))"
  then obtain fin where "tokenize_run html cap = Some (Inr fin)" and "toks = tokens fin"
    by (rule tokenize_Inr)
  then show "\<forall>t \<in> set toks. type t = Text \<longrightarrow> data t \<noteq> []"
    using tokenize_run_texts_nonempty by blast
next
  assume "0 < cap"
  from tokenize_any_capacity[OF tokenize_adjacent_tags_16 this]
  show "\<exists>ts c. tokenize ''<a><b></b></a>'' cap = Some (Inr (ts, c)) \<and>
         ts = [\<lparr>type = StartTag, data = ''a''\<rparr>, \<lparr>type = StartTag, data = ''b''\<rparr>,
               \<lparr>type = EndTag, data = ''b''\<rparr>, \<lparr>type = EndTag, data = ''a''\<rparr>] \<and>
         (\<forall>t \<in> set ts. type t \<noteq> Text)"
    by auto
qed

theorem tokenize_no_empty_text_witness:
  "tokenize ''x<b>'' 16 =
     Some (Inr ([\<lparr>type = Text, data = ''x''\<rparr>, \<lparr>type = StartTag, data = ''b''\<rparr>], 16)) \<and>
   data \<lparr>type = Text, data = ''x''\<rparr> \<noteq> [] \<and>
   (0::int) < 16 \<and>
   (\<exists>ts c. tokenize ''<a><b></b></a>'' 16 = Some (Inr (ts, c)) \<and>
      list_all (\<lambda>t. type t \<in> {StartTag, EndTag}) ts)"
proof -
  have h: "(0::int) < 16" by simp
  note t = tokenize_no_empty_text[where html = "''x<b>''" and cap = 16 and cap' = 16
      and toks = "[\<lparr>type = Text, data = ''x''\<rparr>, \<lparr>type = StartTag, data = ''b''\<rparr>]"]
  from t h have "\<exists>ts c. tokenize ''<a><b></b></a>'' 16 = Some (Inr (ts, c)) \<and>
      list_all (\<lambda>t. type t \<in> {StartTag, EndTag}) ts"
    by auto
  then show ?thesis using t tokenize_x_b_16 by simp
qed


lemma tokenize_slash_a_x_16:
  "tokenize ''</a>x'' 16 =
     Some (Inr ([\<lparr>type = EndTag, data = ''a''\<rparr>, \<lparr>type = Text, data = ''x''\<rparr>], 16))"
  by (simp add: tokenize_defs tokenize_loop.simps extract_tag_name.simps)

lemma tokenize_slash_a_16:
  "tokenize ''</a>'' 16 = Some (Inr ([\<lparr>type = EndTag, data = ''a''\<rparr>], 16))"
  by (simp add: tokenize_defs tokenize_loop.simps extract_tag_name.simps)

lemma tokenize_empty_start_tag_16:
  "tokenize ''<>'' 16 = Some (Inr ([\<lparr>type = StartTag, data = []\<rparr>], 16))"
  by (simp add: tokenize_defs tokenize_loop.simps extract_tag_name.simps)

lemma tokenize_empty_end_tag_16:
  "tokenize ''</>'' 16 = Some (Inr ([\<lparr>type = EndTag, data = []\<rparr>], 16))"
  by (simp add: tokenize_defs tokenize_loop.simps extract_tag_name.simps)

lemma tokenize_nested_open_16:
  "tokenize ''<a<b'' 16 = Some (Inr ([\<lparr>type = StartTag, data = ''a<b''\<rparr>], 16))"
  by (simp add: tokenize_defs tokenize_loop.simps extract_tag_name.simps)

lemma tokenize_x_slash_a_16:
  "tokenize ''x</a'' 16 =
     Some (Inr ([\<lparr>type = Text, data = ''x''\<rparr>, \<lparr>type = EndTag, data = ''a''\<rparr>], 16))"
  by (simp add: tokenize_defs tokenize_loop.simps extract_tag_name.simps)

lemma tokenize_body_open_a:
  "tokenize_body ''<a'' (tokenize_init 16) =
     Some (Inr \<lparr>pos = 3, buffer = [], tokens = [\<lparr>type = StartTag, data = ''a''\<rparr>],
                token_capacity = 16, strlen_calls = 3\<rparr>)"
  by (simp add: tokenize_defs extract_tag_name.simps)

lemma tokenize_run_five_children:
  "tokenize_run ''x<a></a><b></b><c></c><d></d>'' 16 =
     Some (Inr \<lparr>pos = 29, buffer = [],
                tokens = [\<lparr>type = Text, data = ''x''\<rparr>, \<lparr>type = StartTag, data = ''a''\<rparr>,
                          \<lparr>type = EndTag, data = ''a''\<rparr>, \<lparr>type = StartTag, data = ''b''\<rparr>,
                          \<lparr>type = EndTag, data = ''b''\<rparr>, \<lparr>type = StartTag, data = ''c''\<rparr>,
                          \<lparr>type = EndTag, data = ''c''\<rparr>, \<lparr>type = StartTag, data = ''d''\<rparr>,
                          \<lparr>type = EndTag, data = ''d''\<rparr>],
                token_capacity = 16, strlen_calls = 34\<rparr>)"
  by (simp add: tokenize_defs tokenize_loop.simps extract_tag_name.simps)

lemma build_run_five_children:
  "build_run [\<lparr>type = Text, data = ''x''\<rparr>, \<lparr>type = StartTag, data = ''a''\<rparr>,
              \<lparr>type = EndTag, data = ''a''\<rparr>, \<lparr>type = StartTag, data = ''b''\<rparr>,
              \<lparr>type = EndTag, data = ''b''\<rparr>, \<lparr>type = StartTag, data = ''c''\<rparr>,
              \<lparr>type = EndTag, data = ''c''\<rparr>, \<lparr>type = StartTag, data = ''d''\<rparr>,
              \<lparr>type = EndTag, data = ''d''\<rparr>] =
     Some (Inr (9,
       \<lparr>heap = [\<lparr>name = ''document'', children = [1, 2, 3, 4, 5], child_capacity = 8,
                   is_text = False\<rparr>,
                 \<lparr>name = ''x'', children = [], child_capacity = 4, is_text = True\<rparr>,
                 \<lparr>name = ''a'', children = [], child_capacity = 4, is_text = False\<rparr>,
                 \<lparr>name = ''b'', children = [], child_capacity = 4, is_text = False\<rparr>,
                 \<lparr>name = ''c'', children = [], child_capacity = 4, is_text = False\<rparr>,
                 \<lparr>name = ''d'', children = [], child_capacity = 4, is_text = False\<rparr>],
         stack = [0]\<rparr>))"
  by (simp add: build_defs build_loop.simps)

lemma build_cost_five_children:
  "build_cost [\<lparr>type = Text, data = ''x''\<rparr>, \<lparr>type = StartTag, data = ''a''\<rparr>,
               \<lparr>type = EndTag, data = ''a''\<rparr>, \<lparr>type = StartTag, data = ''b''\<rparr>,
               \<lparr>type = EndTag, data = ''b''\<rparr>, \<lparr>type = StartTag, data = ''c''\<rparr>,
               \<lparr>type = EndTag, data = ''c''\<rparr>, \<lparr>type = StartTag, data = ''d''\<rparr>,
               \<lparr>type = EndTag, data = ''d''\<rparr>] = Some 48"
  by (simp add: build_cost_def build_loop_cost.simps build_body_cost_def create_node_cost_def
      add_child_cost_def build_defs)

text \<open>
  Claim C7, as amended. Whenever \<open>tokenize\<close> returns on an input of length \<open>n\<close>, it has
  produced at most \<open>n\<close> tokens and has called \<open>strlen(html)\<close> at least \<open>n + 1\<close> and at
  most \<open>2 n + 3\<close> times: the loop tests of lines 82 and 107 and the test of line 101 each
  call it again. Each call reads \<open>n + 1\<close> characters, so the calls read at least
  \<open>(n + 1) (n + 1)\<close> characters: the running time grows at least quadratically in \<open>n\<close>,
  not linearly.
  Whenever \<open>build_dom\<close> returns on \<open>m\<close> tokens, its loop body has run \<open>m\<close> times, the
  heap holds at most \<open>m\<close> nodes besides the root, and it has taken at most
  \<open>7 m + p + 11\<close> steps, where \<open>p\<close> is the number of payload characters of the StartTag
  and Text tokens, which \<open>strdup\<close> copies, and where a \<open>realloc\<close> is charged the pointers
  it copies. On the tokens that \<open>tokenize\<close> returns, whose payloads have fewer than 1024
  characters, these are at most \<open>1030 m + 11\<close> steps.
\<close>

theorem tokenize_build_counts:
  "(tokenize_run html cap = Some (Inr st) \<longrightarrow>
      length (tokens st) \<le> length html \<and>
      length html + 1 \<le> strlen_calls st \<and> strlen_calls st \<le> 2 * length html + 3 \<and>
      (length html + 1) * (length html + 1) \<le> strlen_reads html st) \<and>
   (build_run toks = Some (Inr (i, bst)) \<longrightarrow>
      i = length toks \<and> length (heap bst) \<le> length toks + 1 \<and>
      (\<exists>c. build_cost toks = Some c \<and> c \<le> 7 * length toks + copied_chars toks + 11)) \<and>
   (tokenize html cap = Some (Inr (toks, cap')) \<and> build_run toks = Some (Inr (i, bst)) \<longrightarrow>
      (\<exists>c. build_cost toks = Some c \<and> c \<le> 1030 * length toks + 11))"
proof (intro conjI impI)
  assume r: "tokenize_run html cap = Some (Inr st)"
  note c = tokenize_run_counts[OF r]
  show "length (tokens st) \<le> length html" by (rule c(1))
  show "length html + 1 \<le> strlen_calls st" by (rule c(2))
  show "strlen_calls st \<le> 2 * length html + 3" by (rule c(3))
  show "(length html + 1) * (length html + 1) \<le> strlen_reads html st"
    unfolding strlen_reads_def using c(2) by (rule mult_le_mono1)
next
  assume r: "build_run toks = Some (Inr (i, bst))"
  show "i = length toks" by (rule build_run_counts(1)[OF r])
  show "length (heap bst) \<le> length toks + 1" by (rule build_run_counts(2)[OF r])
  show "\<exists>c. build_cost toks = Some c \<and> c \<le> 7 * length toks + copied_chars toks + 11"
    by (rule build_cost_bound[OF r])
next
  assume a: "tokenize html cap = Some (Inr (toks, cap')) \<and>
             build_run toks = Some (Inr (i, bst))"
  then obtain fin where "tokenize_run html cap = Some (Inr fin)" and "toks = tokens fin"
    by (auto elim: tokenize_Inr)
  then have "\<forall>t \<in> set toks. length (data t) < 1024"
    using tokenize_run_payloads by blast
  then have p: "copied_chars toks \<le> 1023 * length toks" by (rule copied_chars_bounded)
  from a have "build_run toks = Some (Inr (i, bst))" by simp
  from build_cost_bound[OF this] obtain c where
    c: "build_cost toks = Some c" "c \<le> 7 * length toks + copied_chars toks + 11" by blast
  then have "c \<le> 1030 * length toks + 11" using p by simp
  with c(1) show "\<exists>c. build_cost toks = Some c \<and> c \<le> 1030 * length toks + 11" by blast
qed

theorem tokenize_build_counts_witness:
  "tokenize_run ''x<a></a><b></b><c></c><d></d>'' 16 =
     Some (Inr \<lparr>pos = 29, buffer = [],
                tokens = [\<lparr>type = Text, data = ''x''\<rparr>, \<lparr>type = StartTag, data = ''a''\<rparr>,
                          \<lparr>type = EndTag, data = ''a''\<rparr>, \<lparr>type = StartTag, data = ''b''\<rparr>,
                          \<lparr>type = EndTag, data = ''b''\<rparr>, \<lparr>type = StartTag, data = ''c''\<rparr>,
                          \<lparr>type = EndTag, data = ''c''\<rparr>, \<lparr>type = StartTag, data = ''d''\<rparr>,
                          \<lparr>type = EndTag, data = ''d''\<rparr>],
                token_capacity = 16, strlen_calls = 34\<rparr>) \<and>
   (9::nat) \<le> length ''x<a></a><b></b><c></c><d></d>'' \<and>
   length ''x<a></a><b></b><c></c><d></d>'' + 1 \<le> (34::nat) \<and>
   (34::nat) \<le> 2 * length ''x<a></a><b></b><c></c><d></d>'' + 3 \<and>
   build_run [\<lparr>type = Text, data = ''x''\<rparr>, \<lparr>type = StartTag, data = ''a''\<rparr>,
              \<lparr>type = EndTag, data = ''a''\<rparr>, \<lparr>type = StartTag, data = ''b''\<rparr>,
              \<lparr>type = EndTag, data = ''b''\<rparr>, \<lparr>type = StartTag, data = ''c''\<rparr>,
              \<lparr>type = EndTag, data = ''c''\<rparr>, \<lparr>type = StartTag, data = ''d''\<rparr>,
              \<lparr>type = EndTag, data = ''d''\<rparr>] =
     Some (Inr (9,
       \<lparr>heap = [\<lparr>name = ''document'', children = [1, 2, 3, 4, 5], child_capacity = 8,
                   is_text = False\<rparr>,
                 \<lparr>name = ''x'', children = [], child_capacity = 4, is_text = True\<rparr>,
                 \<lparr>name = ''a'', children = [], child_capacity = 4, is_text = False\<rparr>,
                 \<lparr>name = ''b'', children = [], child_capacity = 4, is_text = False\<rparr>,
                 \<lparr>name = ''c'', children = [], child_capacity = 4, is_text = False\<rparr>,
                 \<lparr>name = ''d'', children = [], child_capacity = 4, is_text = False\<rparr>],
         stack = [0]\<rparr>)) \<and>
   build_cost [\<lparr>type = Text, data = ''x''\<rparr>, \<lparr>type = StartTag, data = ''a''\<rparr>,
               \<lparr>type = EndTag, data = ''a''\<rparr>, \<lparr>type = StartTag, data = ''b''\<rparr>,
               \<lparr>type = EndTag, data = ''b''\<rparr>, \<lparr>type = StartTag, data = ''c''\<rparr>,
               \<lparr>type = EndTag, data = ''c''\<rparr>, \<lparr>type = StartTag, data = ''d''\<rparr>,
               \<lparr>type = EndTag, data = ''d''\<rparr>] = Some 48 \<and>
   (48::nat) \<le> 7 * 9 + 5 + 11"
proof -
  note t = tokenize_build_counts[where html = "''x<a></a><b></b><c></c><d></d>''" and cap = 16
      and cap' = 16
      and st = "\<lparr>pos = 29, buffer = [],
                tokens = [\<lparr>type = Text, data = ''x''\<rparr>, \<lparr>type = StartTag, data = ''a''\<rparr>,
                          \<lparr>type = EndTag, data = ''a''\<rparr>, \<lparr>type = StartTag, data = ''b''\<rparr>,
                          \<lparr>type = EndTag, data = ''b''\<rparr>, \<lparr>type = StartTag, data = ''c''\<rparr>,
                          \<lparr>type = EndTag, data = ''c''\<rparr>, \<lparr>type = StartTag, data = ''d''\<rparr>,
                          \<lparr>type = EndTag, data = ''d''\<rparr>],
                token_capacity = 16, strlen_calls = 34\<rparr>"
      and toks = "[\<lparr>type = Text, data = ''x''\<rparr>, \<lparr>type = StartTag, data = ''a''\<rparr>,
              \<lparr>type = EndTag, data = ''a''\<rparr>, \<lparr>type = StartTag, data = ''b''\<rparr>,
              \<lparr>type = EndTag, data = ''b''\<rparr>, \<lparr>type = StartTag, data = ''c''\<rparr>,
              \<lparr>type = EndTag, data = ''c''\<rparr>, \<lparr>type = StartTag, data = ''d''\<rparr>,
              \<lparr>type = EndTag, data = ''d''\<rparr>]"
      and i = 9
      and bst = "\<lparr>heap = [\<lparr>name = ''document'', children = [1, 2, 3, 4, 5], child_capacity = 8,
                   is_text = False\<rparr>,
                 \<lparr>name = ''x'', children = [], child_capacity = 4, is_text = True\<rparr>,
                 \<lparr>name = ''a'', children = [], child_capacity = 4, is_text = False\<rparr>,
                 \<lparr>name = ''b'', children = [], child_capacity = 4, is_text = False\<rparr>,
                 \<lparr>name = ''c'', children = [], child_capacity = 4, is_text = False\<rparr>,
                 \<lparr>name = ''d'', children = [], child_capacity = 4, is_text = False\<rparr>],
         stack = [0]\<rparr>"]
  from t tokenize_run_five_children build_run_five_children
  have "(9::nat) \<le> length ''x<a></a><b></b><c></c><d></d>'' \<and>
        length ''x<a></a><b></b><c></c><d></d>'' + 1 \<le> (34::nat) \<and>
        (34::nat) \<le> 2 * length ''x<a></a><b></b><c></c><d></d>'' + 3"
    by simp
  then show ?thesis
    using tokenize_run_five_children build_run_five_children build_cost_five_children by simp
qed

text \<open>
  The claim as stated fails in both of its time bounds. No constant \<open>c\<close> bounds the
  characters read by the calls of \<open>strlen\<close> by \<open>c\<close> times the length of the input (plus
  one): the inputs \<open><><>...<>\<close> are tokenized without any overflow at every length. And
  no constant \<open>c\<close> bounds the steps of \<open>build_dom\<close> by \<open>c\<close> times the number of tokens
  (plus one): a single Text token takes as many steps as its payload has characters, and
  fifteen more.
\<close>

theorem tokenize_and_build_not_linear_time:
  "\<not> (\<exists>c. \<forall>html cap st. tokenize_run html cap = Some (Inr st) \<longrightarrow>
          strlen_reads html st \<le> c * (length html + 1)) \<and>
   \<not> (\<exists>c. \<forall>toks n. build_cost toks = Some n \<longrightarrow> n \<le> c * (length toks + 1))"
proof (intro conjI notI)
  assume "\<exists>c. \<forall>html cap st. tokenize_run html cap = Some (Inr st) \<longrightarrow>
            strlen_reads html st \<le> c * (length html + 1)"
  then obtain c where c: "\<And>html cap st. tokenize_run html cap = Some (Inr st) \<Longrightarrow>
      strlen_reads html st \<le> c * (length html + 1)" by blast
  let ?h = "concat (replicate c ''<>'')"
  have len: "length ?h = 2 * c" by (simp add: length_concat sum_list_replicate)
  obtain fin where r: "tokenize_run ?h 16 = Some (Inr fin)"
    using tokenize_run_empty_tags by blast
  have "length ?h + 1 \<le> strlen_calls fin" by (rule tokenize_run_counts(2)[OF r])
  then have "(2 * c + 1) * (2 * c + 1) \<le> strlen_calls fin * (2 * c + 1)"
    unfolding len by (rule mult_le_mono1)
  also have "\<dots> \<le> c * (2 * c + 1)" using c[OF r] by (simp add: strlen_reads_def len)
  finally show False by simp
next
  assume "\<exists>c. \<forall>toks n. build_cost toks = Some n \<longrightarrow> n \<le> c * (length toks + 1)"
  then obtain c where c: "\<And>toks n. build_cost toks = Some n \<Longrightarrow> n \<le> c * (length toks + 1)"
    by blast
  from c[OF build_cost_one_text[of "replicate (2 * c) CHR ''a''"]] show False by simp
qed

text \<open>
  Claim C8. \<open>tokenize\<close> and \<open>build_dom\<close> return on every input (with tokens or a tree,
  or with the report of an access outside an array), and so does each run of the loop
  body of \<open>tokenize\<close>. An iteration of the main loop that returns a state has moved the
  scan position forward, at most to one past the end of the input, and exactly there
  when it read a tag that the input does not close. The loop of \<open>build_dom\<close> ends with
  \<open>i\<close> equal to the number of tokens.
\<close>

theorem tokenize_and_build_terminate:
  "(\<exists>r. tokenize html cap = Some r) \<and>
   (\<exists>r. build_dom toks = Some r) \<and>
   (\<exists>r. tokenize_body html st = Some r) \<and>
   (pos st < length html \<and> tokenize_body html st = Some (Inr st') \<longrightarrow>
      pos st < pos st' \<and> pos st' \<le> length html + 1) \<and>
   (pos st < length html \<and> html ! pos st = CHR ''<'' \<and>
    CHR ''>'' \<notin> set (drop (pos st) html) \<and> tokenize_body html st = Some (Inr st') \<longrightarrow>
      pos st' = length html + 1) \<and>
   (build_run toks = Some (Inr (i, bst)) \<longrightarrow> i = length toks)"
proof (intro conjI impI)
  obtain r where "tokenize_loop html (tokenize_init cap) = Some r"
    using tokenize_loop_total by blast
  then show "\<exists>r. tokenize html cap = Some r"
    by (cases r) (auto simp add: tokenize_def tokenize_run_def split: sum.splits)
  obtain q where "build_loop toks 0 (snd build_init) = Some q"
    using build_loop_total by blast
  then show "\<exists>r. build_dom toks = Some r"
    by (cases q) (auto simp add: build_dom_def build_run_def)
  show "\<exists>r. tokenize_body html st = Some r" by (rule tokenize_body_total)
next
  assume "pos st < length html \<and> tokenize_body html st = Some (Inr st')"
  then show "pos st < pos st'" and "pos st' \<le> length html + 1"
    using tokenize_body_pos by blast+
next
  assume "pos st < length html \<and> html ! pos st = CHR ''<'' \<and>
    CHR ''>'' \<notin> set (drop (pos st) html) \<and> tokenize_body html st = Some (Inr st')"
  then show "pos st' = length html + 1"
    using tokenize_body_unclosed_tag(1) by blast
next
  assume "build_run toks = Some (Inr (i, bst))"
  then show "i = length toks" by (rule build_run_counts(1))
qed

lemma build_run_end_tag_a:
  "build_run [\<lparr>type = EndTag, data = ''a''\<rparr>] =
     Some (Inr (1, \<lparr>heap = [\<lparr>name = ''document'', children = [], child_capacity = 4, is_text = False\<rparr>], stack = []\<rparr>))"
  by (simp add: build_defs build_loop.simps)

theorem tokenize_and_build_terminate_witness:
  "pos (tokenize_init 16) < length ''<a'' \<and> ''<a'' ! pos (tokenize_init 16) = CHR ''<'' \<and>
   CHR ''>'' \<notin> set (drop (pos (tokenize_init 16)) ''<a'') \<and>
   tokenize_body ''<a'' (tokenize_init 16) =
     Some (Inr \<lparr>pos = 3, buffer = [], tokens = [\<lparr>type = StartTag, data = ''a''\<rparr>],
                token_capacity = 16, strlen_calls = 3\<rparr>) \<and>
   pos (tokenize_init 16) <
     pos \<lparr>pos = 3, buffer = [], tokens = [\<lparr>type = StartTag, data = ''a''\<rparr>],
          token_capacity = 16, strlen_calls = 3\<rparr> \<and>
   pos \<lparr>pos = 3, buffer = [], tokens = [\<lparr>type = StartTag, data = ''a''\<rparr>],
        token_capacity = 16, strlen_calls = 3\<rparr> = length ''<a'' + 1 \<and>
   build_run [\<lparr>type = EndTag, data = ''a''\<rparr>] =
     Some (Inr (1, \<lparr>heap = [\<lparr>name = ''document'', children = [], child_capacity = 4, is_text = False\<rparr>], stack = []\<rparr>)) \<and>
   (1::nat) = length [\<lparr>type = EndTag, data = ''a''\<rparr>]"
proof -
  have h: "pos (tokenize_init 16) < length ''<a'' \<and> ''<a'' ! pos (tokenize_init 16) = CHR ''<'' \<and>
   CHR ''>'' \<notin> set (drop (pos (tokenize_init 16)) ''<a'')"
    by (simp add: tokenize_init_def)
  note t = tokenize_and_build_terminate[where html = "''<a''" and st = "tokenize_init 16"
      and st' = "\<lparr>pos = 3, buffer = [], tokens = [\<lparr>type = StartTag, data = ''a''\<rparr>],
                  token_capacity = 16, strlen_calls = 3\<rparr>"
      and toks = "[\<lparr>type = EndTag, data = ''a''\<rparr>]" and i = 1
      and bst = "\<lparr>heap = [\<lparr>name = ''document'', children = [], child_capacity = 4, is_text = False\<rparr>], stack = []\<rparr>"]
  from t h tokenize_body_open_a build_run_end_tag_a
  have "pos (tokenize_init 16) <
     pos \<lparr>pos = 3, buffer = [], tokens = [\<lparr>type = StartTag, data = ''a''\<rparr>],
          token_capacity = 16, strlen_calls = 3\<rparr> \<and>
   pos \<lparr>pos = 3, buffer = [], tokens = [\<lparr>type = StartTag, data = ''a''\<rparr>],
        token_capacity = 16, strlen_calls = 3\<rparr> = length ''<a'' + 1 \<and>
   (1::nat) = length [\<lparr>type = EndTag, data = ''a''\<rparr>]"
    by blast
  with h tokenize_body_open_a build_run_end_tag_a show ?thesis by blast
qed

text \<open>
  Claim C9, as amended. Let the input be \<open>pre @ '<' # rest\<close>, where no \<open>>\<close> occurs in
  \<open>rest\<close> and every \<open><\<close> of \<open>pre\<close> is followed by a \<open>>\<close> in \<open>pre\<close>: this \<open><\<close> is the first
  one of the input that no \<open>>\<close> follows. Whenever \<open>tokenize\<close> returns tokens (no buffer
  is overrun), the last one is the EndTag with all of \<open>rest\<close> after its \<open>/\<close> when \<open>rest\<close>
  starts with \<open>/\<close>, and the StartTag with all of \<open>rest\<close> otherwise.
\<close>

theorem tokenize_unclosed_tag:
  assumes html: "html = pre @ CHR ''<'' # rest"
    and no: "CHR ''>'' \<notin> set rest"
    and closed: "\<forall>i < length pre. pre ! i = CHR ''<'' \<longrightarrow> CHR ''>'' \<in> set (drop i pre)"
    and run: "tokenize html cap = Some (Inr (toks, cap'))"
  shows "toks \<noteq> [] \<and>
         last toks = (if rest \<noteq> [] \<and> hd rest = CHR ''/''
                      then \<lparr>type = EndTag, data = tl rest\<rparr>
                      else \<lparr>type = StartTag, data = rest\<rparr>)"
proof -
  from run obtain fin where r: "tokenize_run html cap = Some (Inr fin)"
    and toks: "toks = tokens fin" by (rule tokenize_Inr)
  from r obtain s where l: "tokenize_loop html (tokenize_init cap) = Some (Inr s)"
    and f: "flush_remaining s = Inr fin" by (rule tokenize_run_Inr)
  have "pos (tokenize_init cap) \<le> length pre" by (simp add: tokenize_init_def)
  from tokenize_loop_reaches[OF html closed l this] obtain s0 where
    s0: "pos s0 = length pre" "tokenize_loop html s0 = Some (Inr s)" by blast
  note u = tokenize_loop_unclosed_tag[OF html no s0]
  from f u(1) have "fin = s" by (simp add: flush_remaining_def)
  then show ?thesis using toks u(2) by simp
qed

theorem tokenize_unclosed_tag_witness:
  "''x</a'' = ''x'' @ CHR ''<'' # ''/a'' \<and> CHR ''>'' \<notin> set ''/a'' \<and>
   ''x'' ! 0 \<noteq> CHR ''<'' \<and>
   tokenize ''x</a'' 16 =
     Some (Inr ([\<lparr>type = Text, data = ''x''\<rparr>, \<lparr>type = EndTag, data = ''a''\<rparr>], 16)) \<and>
   last [\<lparr>type = Text, data = ''x''\<rparr>, \<lparr>type = EndTag, data = ''a''\<rparr>]
     = \<lparr>type = EndTag, data = tl ''/a''\<rparr>"
  using tokenize_unclosed_tag[of "''x</a''" "''x''" "''/a''" 16 _ 16, OF _ _ _ tokenize_x_slash_a_16]
  by (simp add: tokenize_x_slash_a_16)

text \<open>
  The claim as stated, for any \<open><\<close> that no \<open>>\<close> follows, fails on \<open><a<b\<close>: no \<open>>\<close>
  follows its second \<open><\<close>, but the only token is the StartTag \<open>a<b\<close>, not a StartTag \<open>b\<close>.
\<close>

theorem tokenize_unclosed_tag_counterexample:
  "\<not> (\<forall>html pre rest cap toks cap'.
         html = pre @ CHR ''<'' # rest \<and> CHR ''>'' \<notin> set rest \<and>
         tokenize html cap = Some (Inr (toks, cap')) \<longrightarrow>
         toks \<noteq> [] \<and>
         last toks = (if rest \<noteq> [] \<and> hd rest = CHR ''/''
                      then \<lparr>type = EndTag, data = tl rest\<rparr>
                      else \<lparr>type = StartTag, data = rest\<rparr>))"
proof
  assume a: "\<forall>html pre rest cap toks cap'.
         html = pre @ CHR ''<'' # rest \<and> CHR ''>'' \<notin> set rest \<and>
         tokenize html cap = Some (Inr (toks, cap')) \<longrightarrow>
         toks \<noteq> [] \<and>
         last toks = (if rest \<noteq> [] \<and> hd rest = CHR ''/''
                      then \<lparr>type = EndTag, data = tl rest\<rparr>
                      else \<lparr>type = StartTag, data = rest\<rparr>)"
  have "''<a<b'' = ''<a'' @ CHR ''<'' # ''b'' \<and> CHR ''>'' \<notin> set ''b'' \<and>
        tokenize ''<a<b'' 16 = Some (Inr ([\<lparr>type = StartTag, data = ''a<b''\<rparr>], 16))"
    using tokenize_nested_open_16 by simp
  with a have "last [\<lparr>type = StartTag, data = ''a<b''\<rparr>]
      = (if ''b'' \<noteq> [] \<and> hd ''b'' = CHR ''/''
         then \<lparr>type = EndTag, data = tl ''b''\<rparr> else \<lparr>type = StartTag, data = ''b''\<rparr>)"
    by blast
  then show False by simp
qed

text \<open>
  Claim C10. Called with any positive capacity, \<open>tokenize\<close> returns for \<open><>\<close> exactly one
  token, a StartTag with the empty string as payload, and for \<open></>\<close> exactly one EndTag
  with the empty payload; for that StartTag, \<open>build_dom\<close> creates an element whose name
  is the empty string, the only child of the root.
\<close>

theorem empty_tag_names:
  "0 < cap \<Longrightarrow>
   (\<exists>c. tokenize ''<>'' cap = Some (Inr ([\<lparr>type = StartTag, data = []\<rparr>], c))) \<and>
   (\<exists>c. tokenize ''</>'' cap = Some (Inr ([\<lparr>type = EndTag, data = []\<rparr>], c))) \<and>
   build_dom [\<lparr>type = StartTag, data = []\<rparr>] =
     Some (Inr (0, [\<lparr>name = ''document'', children = [1], child_capacity = 4, is_text = False\<rparr>,
                    \<lparr>name = [], children = [], child_capacity = 4, is_text = False\<rparr>]))"
  using tokenize_any_capacity[OF tokenize_empty_start_tag_16]
    tokenize_any_capacity[OF tokenize_empty_end_tag_16]
  by (simp add: build_defs build_loop.simps)

theorem empty_tag_names_witness:
  "(0::int) < 16 \<and>
   (\<exists>c. tokenize ''<>'' 16 = Some (Inr ([\<lparr>type = StartTag, data = []\<rparr>], c))) \<and>
   (\<exists>c. tokenize ''</>'' 16 = Some (Inr ([\<lparr>type = EndTag, data = []\<rparr>], c)))"
proof -
  have h: "(0::int) < 16" by simp
  show ?thesis using h empty_tag_names[OF h] by simp
qed

section \<open>The claims about the tree builder\<close>

text \<open>
  Claim C1. The claim does not hold of the code. The guard of line 153 is
  \<open>stack_size > 0\<close>, so an EndTag met while only one entry, the root, is on the stack
  decrements \<open>stack_size\<close> from 1 to 0: the root is removed and the stack is empty. A
  StartTag or Text token met with the empty stack reads \<open>stack[-1]\<close>. For the input
  \<open></a>x\<close>: its tokens are EndTag \<open>a\<close> and Text \<open>x\<close>, the EndTag alone leaves the empty
  stack, and the Text token reads outside the stack.
\<close>

theorem end_tag_pops_the_root:
  "build_body \<lparr>type = EndTag, data = d\<rparr> \<lparr>heap = h, stack = [root]\<rparr>
     = Inr \<lparr>heap = h, stack = []\<rparr> \<and>
   build_body \<lparr>type = Text, data = d\<rparr> \<lparr>heap = h, stack = []\<rparr> = Inl StackOutOfBounds \<and>
   build_body \<lparr>type = StartTag, data = d\<rparr> \<lparr>heap = h, stack = []\<rparr> = Inl StackOutOfBounds \<and>
   build_run [\<lparr>type = EndTag, data = ''a''\<rparr>] =
     Some (Inr (1, \<lparr>heap = [\<lparr>name = ''document'', children = [], child_capacity = 4, is_text = False\<rparr>], stack = []\<rparr>)) \<and>
   tokenize ''</a>x'' 16 =
     Some (Inr ([\<lparr>type = EndTag, data = ''a''\<rparr>, \<lparr>type = Text, data = ''x''\<rparr>], 16)) \<and>
   build_dom [\<lparr>type = EndTag, data = ''a''\<rparr>, \<lparr>type = Text, data = ''x''\<rparr>] =
     Some (Inl StackOutOfBounds) \<and>
   tokenize_then_build ''</a>x'' 16 = Some (Inl StackOutOfBounds)"
  by (simp add: tokenize_then_build_def tokenize_slash_a_x_16 build_defs build_loop.simps)

text \<open>
  Claim C2. Two token sequences of the same length whose tokens agree in kind, and in
  payload except for the EndTag tokens, give the same result of \<open>build_dom\<close>: the same
  root pointer and heap, or the same error.
\<close>

theorem build_dom_ignores_end_tag_payload:
  "list_all2 (\<lambda>t t'. type t = type t' \<and> (type t \<noteq> EndTag \<longrightarrow> data t = data t')) toks toks'
   \<Longrightarrow> build_dom toks = build_dom toks'"
proof -
  assume a: "list_all2 (\<lambda>t t'. type t = type t' \<and> (type t \<noteq> EndTag \<longrightarrow> data t = data t'))
               toks toks'"
  then have len: "length toks = length toks'" by (rule list_all2_lengthD)
  have "\<forall>k < length toks. type (toks ! k) = type (toks' ! k) \<and>
          (type (toks ! k) \<noteq> EndTag \<longrightarrow> data (toks ! k) = data (toks' ! k))"
    using a by (simp add: list_all2_conv_all_nth)
  from build_loop_end_tag_payload[OF len this]
  show "build_dom toks = build_dom toks'" by (simp add: build_dom_def build_run_def)
qed

theorem build_dom_ignores_end_tag_payload_witness:
  "build_dom [\<lparr>type = StartTag, data = ''a''\<rparr>, \<lparr>type = EndTag, data = ''a''\<rparr>,
              \<lparr>type = Text, data = ''x''\<rparr>]
   = build_dom [\<lparr>type = StartTag, data = ''a''\<rparr>, \<lparr>type = EndTag, data = ''zzz''\<rparr>,
                \<lparr>type = Text, data = ''x''\<rparr>] \<and>
   build_dom [\<lparr>type = StartTag, data = ''a''\<rparr>, \<lparr>type = EndTag, data = ''zzz''\<rparr>,
              \<lparr>type = Text, data = ''x''\<rparr>]
   = Some (Inr (0, [\<lparr>name = ''document'', children = [1, 2], child_capacity = 4, is_text = False\<rparr>,
                    \<lparr>name = ''a'', children = [], child_capacity = 4, is_text = False\<rparr>,
                    \<lparr>name = ''x'', children = [], child_capacity = 4, is_text = True\<rparr>]))"
proof -
  have "build_dom [\<lparr>type = StartTag, data = ''a''\<rparr>, \<lparr>type = EndTag, data = ''a''\<rparr>,
              \<lparr>type = Text, data = ''x''\<rparr>]
   = build_dom [\<lparr>type = StartTag, data = ''a''\<rparr>, \<lparr>type = EndTag, data = ''zzz''\<rparr>,
                \<lparr>type = Text, data = ''x''\<rparr>]"
    by (rule build_dom_ignores_end_tag_payload) simp
  moreover have "build_dom [\<lparr>type = StartTag, data = ''a''\<rparr>, \<lparr>type = EndTag, data = ''zzz''\<rparr>,
              \<lparr>type = Text, data = ''x''\<rparr>]
   = Some (Inr (0, [\<lparr>name = ''document'', children = [1, 2], child_capacity = 4, is_text = False\<rparr>,
                    \<lparr>name = ''a'', children = [], child_capacity = 4, is_text = False\<rparr>,
                    \<lparr>name = ''x'', children = [], child_capacity = 4, is_text = True\<rparr>]))"
    by (simp add: build_defs build_loop.simps)
  ultimately show ?thesis by simp
qed

lemma end_tag_alone_any_capacity:
  "0 < cap \<Longrightarrow>
   (\<exists>c. tokenize ''</a>'' cap = Some (Inr ([\<lparr>type = EndTag, data = ''a''\<rparr>], c))) \<and>
   tokenize_then_build ''</a>'' cap = Some (Inr (0, [\<lparr>name = ''document'', children = [], child_capacity = 4, is_text = False\<rparr>]))"
proof -
  assume "0 < cap"
  from tokenize_any_capacity[OF tokenize_slash_a_16 this] obtain c where
    t: "tokenize ''</a>'' cap = Some (Inr ([\<lparr>type = EndTag, data = ''a''\<rparr>], c))" by blast
  have b: "build_dom [\<lparr>type = EndTag, data = ''a''\<rparr>] = Some (Inr (0, [\<lparr>name = ''document'', children = [], child_capacity = 4, is_text = False\<rparr>]))"
    by (simp add: build_defs build_loop.simps)
  show ?thesis using t b by (simp add: tokenize_then_build_def)
qed

text \<open>
  Claim C5. The claim does not hold of the code in one of its parts. For the input
  \<open></a>\<close> alone the two steps together do return, no index leaves an array, and the
  result is the root pointer with a heap that holds the root alone, an element named
  \<open>document\<close> with no children: so far the claim holds. But the EndTag passes the guard
  \<open>stack_size > 0\<close> of line 153 and takes \<open>stack_size\<close> from 1 to 0: the loop ends with
  the empty stack, the root popped, where the claim says that the root is not popped.
  This is the defect of C1, without its out-of-bounds read, since no token follows.
\<close>

theorem end_tag_alone_pops_the_root:
  "tokenize ''</a>'' 16 = Some (Inr ([\<lparr>type = EndTag, data = ''a''\<rparr>], 16)) \<and>
   stack (snd build_init) = [0] \<and>
   build_run [\<lparr>type = EndTag, data = ''a''\<rparr>] =
     Some (Inr (1, \<lparr>heap = [\<lparr>name = ''document'', children = [], child_capacity = 4, is_text = False\<rparr>], stack = []\<rparr>)) \<and>
   build_dom [\<lparr>type = EndTag, data = ''a''\<rparr>] = Some (Inr (0, [\<lparr>name = ''document'', children = [], child_capacity = 4, is_text = False\<rparr>])) \<and>
   tokenize_then_build ''</a>'' 16 = Some (Inr (0, [\<lparr>name = ''document'', children = [], child_capacity = 4, is_text = False\<rparr>]))"
  by (simp add: tokenize_then_build_def tokenize_slash_a_16 build_defs build_loop.simps)

text \<open>
  Claim C6. In every heap that \<open>build_dom\<close> returns, every text node has an empty child
  array; and in every state that the loop of \<open>build_dom\<close> ends in, every entry of the
  stack points to a node of the heap that is not a text node, so that \<open>add_child\<close>, which
  is only called on the top of the stack, never gets a text node as the parent.
\<close>

theorem text_nodes_have_no_children:
  "(build_dom toks = Some (Inr (root, h)) \<longrightarrow>
      (\<forall>n \<in> set h. is_text n \<longrightarrow> children n = [])) \<and>
   (build_run toks = Some (Inr (i, st)) \<longrightarrow>
      (\<forall>a \<in> set (stack st). a < length (heap st) \<and> \<not> is_text (heap st ! a)))"
proof (intro conjI impI)
  assume "build_dom toks = Some (Inr (root, h))"
  then obtain j s where "build_run toks = Some (Inr (j, s))" and "h = heap s"
    by (rule build_run_Inr)
  then show "\<forall>n \<in> set h. is_text n \<longrightarrow> children n = []"
    using build_run_stack_valid[of toks j s] by (simp add: stack_valid_def)
next
  assume "build_run toks = Some (Inr (i, st))"
  then show "\<forall>a \<in> set (stack st). a < length (heap st) \<and> \<not> is_text (heap st ! a)"
    using build_run_stack_valid[of toks i st] by (simp add: stack_valid_def)
qed

theorem text_nodes_have_no_children_witness:
  "build_dom [\<lparr>type = StartTag, data = ''a''\<rparr>, \<lparr>type = Text, data = ''x''\<rparr>,
              \<lparr>type = Text, data = ''y''\<rparr>]
   = Some (Inr (0, [\<lparr>name = ''document'', children = [1], child_capacity = 4, is_text = False\<rparr>,
                    \<lparr>name = ''a'', children = [2, 3], child_capacity = 4, is_text = False\<rparr>,
                    \<lparr>name = ''x'', children = [], child_capacity = 4, is_text = True\<rparr>,
                    \<lparr>name = ''y'', children = [], child_capacity = 4, is_text = True\<rparr>])) \<and>
   list_all (\<lambda>n. is_text n \<longrightarrow> children n = [])
     [\<lparr>name = ''document'', children = [1], child_capacity = 4, is_text = False\<rparr>,
      \<lparr>name = ''a'', children = [2, 3], child_capacity = 4, is_text = False\<rparr>,
      \<lparr>name = ''x'', children = [], child_capacity = 4, is_text = True\<rparr>,
      \<lparr>name = ''y'', children = [], child_capacity = 4, is_text = True\<rparr>]"
proof -
  have b: "build_dom [\<lparr>type = StartTag, data = ''a''\<rparr>, \<lparr>type = Text, data = ''x''\<rparr>,
              \<lparr>type = Text, data = ''y''\<rparr>]
   = Some (Inr (0, [\<lparr>name = ''document'', children = [1], child_capacity = 4, is_text = False\<rparr>,
                    \<lparr>name = ''a'', children = [2, 3], child_capacity = 4, is_text = False\<rparr>,
                    \<lparr>name = ''x'', children = [], child_capacity = 4, is_text = True\<rparr>,
                    \<lparr>name = ''y'', children = [], child_capacity = 4, is_text = True\<rparr>]))"
    by (simp add: build_defs build_loop.simps)
  from text_nodes_have_no_children[where toks = "[\<lparr>type = StartTag, data = ''a''\<rparr>,
      \<lparr>type = Text, data = ''x''\<rparr>, \<lparr>type = Text, data = ''y''\<rparr>]" and root = 0] b
  show ?thesis by (simp add: list_all_iff)
qed

end
